theory Spec2Isabelle
  imports Main "HOL-Library.Word" "HOL-Library.Monad_Syntax"
begin

unbundle bit_operations_syntax

section \<open>Machine types\<close>

type_synonym u8 = "8 word"
type_synonym u32 = "32 word"
type_synonym u64 = "64 word"

section \<open>The compression step (md5Transform)\<close>

text \<open>The four core functions, as the macros of the source define them
  (\<open>F2\<close> is \<open>F1\<close> with its arguments rotated).\<close>

definition F1 :: "u32 \<Rightarrow> u32 \<Rightarrow> u32 \<Rightarrow> u32" where
  "F1 x y z = z XOR (x AND (y XOR z))"

definition F2 :: "u32 \<Rightarrow> u32 \<Rightarrow> u32 \<Rightarrow> u32" where
  "F2 x y z = F1 z x y"

definition F3 :: "u32 \<Rightarrow> u32 \<Rightarrow> u32 \<Rightarrow> u32" where
  "F3 x y z = x XOR y XOR z"

definition F4 :: "u32 \<Rightarrow> u32 \<Rightarrow> u32 \<Rightarrow> u32" where
  "F4 x y z = y XOR (x OR NOT z)"

text \<open>The macro \<open>MD5STEP(f,w,x,y,z,in,s)\<close> assigns \<open>w\<close> twice:
  \<open>w += f(x,y,z) + in\<close>, then \<open>w = (w<<s | w>>(32-s)) + x\<close>.
  The function returns the final value of \<open>w\<close>; all arithmetic is on
  \<open>uint32_t\<close> and wraps. The callers pass \<open>in[i] + constant\<close> for \<open>in\<close>; the
  macro adds its two terms one after the other to \<open>f(x,y,z)\<close>, which is the same
  sum modulo \<open>2 ^ 32\<close>.\<close>

definition MD5STEP ::
  "(u32 \<Rightarrow> u32 \<Rightarrow> u32 \<Rightarrow> u32) \<Rightarrow> u32 \<Rightarrow> u32 \<Rightarrow> u32 \<Rightarrow> u32 \<Rightarrow> u32 \<Rightarrow> nat \<Rightarrow> u32" where
  "MD5STEP f w x y z inp s =
     (let w1 = w + (f x y z + inp)
      in (push_bit s w1 OR drop_bit (32 - s) w1) + x)"

text \<open>\<open>md5Transform(buf, in)\<close>: \<open>buf\<close> is the array of 4 state words,
  \<open>inp\<close> the array of 16 data words; the result is the new contents of
  \<open>buf\<close>. The 64 steps are the 64 statements of the source, in order.\<close>

definition md5Transform :: "u32 list \<Rightarrow> u32 list \<Rightarrow> u32 list" where
  "md5Transform buf inp =
     (let a = buf ! 0; b = buf ! 1; c = buf ! 2; d = buf ! 3;
       a = MD5STEP F1 a b c d (inp ! 0 + 0xd76aa478) 7;
       d = MD5STEP F1 d a b c (inp ! 1 + 0xe8c7b756) 12;
       c = MD5STEP F1 c d a b (inp ! 2 + 0x242070db) 17;
       b = MD5STEP F1 b c d a (inp ! 3 + 0xc1bdceee) 22;
       a = MD5STEP F1 a b c d (inp ! 4 + 0xf57c0faf) 7;
       d = MD5STEP F1 d a b c (inp ! 5 + 0x4787c62a) 12;
       c = MD5STEP F1 c d a b (inp ! 6 + 0xa8304613) 17;
       b = MD5STEP F1 b c d a (inp ! 7 + 0xfd469501) 22;
       a = MD5STEP F1 a b c d (inp ! 8 + 0x698098d8) 7;
       d = MD5STEP F1 d a b c (inp ! 9 + 0x8b44f7af) 12;
       c = MD5STEP F1 c d a b (inp ! 10 + 0xffff5bb1) 17;
       b = MD5STEP F1 b c d a (inp ! 11 + 0x895cd7be) 22;
       a = MD5STEP F1 a b c d (inp ! 12 + 0x6b901122) 7;
       d = MD5STEP F1 d a b c (inp ! 13 + 0xfd987193) 12;
       c = MD5STEP F1 c d a b (inp ! 14 + 0xa679438e) 17;
       b = MD5STEP F1 b c d a (inp ! 15 + 0x49b40821) 22;
       a = MD5STEP F2 a b c d (inp ! 1 + 0xf61e2562) 5;
       d = MD5STEP F2 d a b c (inp ! 6 + 0xc040b340) 9;
       c = MD5STEP F2 c d a b (inp ! 11 + 0x265e5a51) 14;
       b = MD5STEP F2 b c d a (inp ! 0 + 0xe9b6c7aa) 20;
       a = MD5STEP F2 a b c d (inp ! 5 + 0xd62f105d) 5;
       d = MD5STEP F2 d a b c (inp ! 10 + 0x02441453) 9;
       c = MD5STEP F2 c d a b (inp ! 15 + 0xd8a1e681) 14;
       b = MD5STEP F2 b c d a (inp ! 4 + 0xe7d3fbc8) 20;
       a = MD5STEP F2 a b c d (inp ! 9 + 0x21e1cde6) 5;
       d = MD5STEP F2 d a b c (inp ! 14 + 0xc33707d6) 9;
       c = MD5STEP F2 c d a b (inp ! 3 + 0xf4d50d87) 14;
       b = MD5STEP F2 b c d a (inp ! 8 + 0x455a14ed) 20;
       a = MD5STEP F2 a b c d (inp ! 13 + 0xa9e3e905) 5;
       d = MD5STEP F2 d a b c (inp ! 2 + 0xfcefa3f8) 9;
       c = MD5STEP F2 c d a b (inp ! 7 + 0x676f02d9) 14;
       b = MD5STEP F2 b c d a (inp ! 12 + 0x8d2a4c8a) 20;
       a = MD5STEP F3 a b c d (inp ! 5 + 0xfffa3942) 4;
       d = MD5STEP F3 d a b c (inp ! 8 + 0x8771f681) 11;
       c = MD5STEP F3 c d a b (inp ! 11 + 0x6d9d6122) 16;
       b = MD5STEP F3 b c d a (inp ! 14 + 0xfde5380c) 23;
       a = MD5STEP F3 a b c d (inp ! 1 + 0xa4beea44) 4;
       d = MD5STEP F3 d a b c (inp ! 4 + 0x4bdecfa9) 11;
       c = MD5STEP F3 c d a b (inp ! 7 + 0xf6bb4b60) 16;
       b = MD5STEP F3 b c d a (inp ! 10 + 0xbebfbc70) 23;
       a = MD5STEP F3 a b c d (inp ! 13 + 0x289b7ec6) 4;
       d = MD5STEP F3 d a b c (inp ! 0 + 0xeaa127fa) 11;
       c = MD5STEP F3 c d a b (inp ! 3 + 0xd4ef3085) 16;
       b = MD5STEP F3 b c d a (inp ! 6 + 0x04881d05) 23;
       a = MD5STEP F3 a b c d (inp ! 9 + 0xd9d4d039) 4;
       d = MD5STEP F3 d a b c (inp ! 12 + 0xe6db99e5) 11;
       c = MD5STEP F3 c d a b (inp ! 15 + 0x1fa27cf8) 16;
       b = MD5STEP F3 b c d a (inp ! 2 + 0xc4ac5665) 23;
       a = MD5STEP F4 a b c d (inp ! 0 + 0xf4292244) 6;
       d = MD5STEP F4 d a b c (inp ! 7 + 0x432aff97) 10;
       c = MD5STEP F4 c d a b (inp ! 14 + 0xab9423a7) 15;
       b = MD5STEP F4 b c d a (inp ! 5 + 0xfc93a039) 21;
       a = MD5STEP F4 a b c d (inp ! 12 + 0x655b59c3) 6;
       d = MD5STEP F4 d a b c (inp ! 3 + 0x8f0ccc92) 10;
       c = MD5STEP F4 c d a b (inp ! 10 + 0xffeff47d) 15;
       b = MD5STEP F4 b c d a (inp ! 1 + 0x85845dd1) 21;
       a = MD5STEP F4 a b c d (inp ! 8 + 0x6fa87e4f) 6;
       d = MD5STEP F4 d a b c (inp ! 15 + 0xfe2ce6e0) 10;
       c = MD5STEP F4 c d a b (inp ! 6 + 0xa3014314) 15;
       b = MD5STEP F4 b c d a (inp ! 13 + 0x4e0811a1) 21;
       a = MD5STEP F4 a b c d (inp ! 4 + 0xf7537e82) 6;
       d = MD5STEP F4 d a b c (inp ! 11 + 0xbd3af235) 10;
       c = MD5STEP F4 c d a b (inp ! 2 + 0x2ad7d2bb) 15;
       b = MD5STEP F4 b c d a (inp ! 9 + 0xeb86d391) 21;
       buf = buf[0 := buf ! 0 + a];
       buf = buf[1 := buf ! 1 + b];
       buf = buf[2 := buf ! 2 + c];
       buf = buf[3 := buf ! 3 + d]
      in buf)"

section \<open>Memory: word arrays seen as bytes\<close>

text \<open>The source stores both arrays of the context as \<open>uint32_t\<close> and reads and
  writes them through \<open>uint8_t*\<close> casts, so the bytes it sees depend on the byte
  order of the host. The host is a parameter of the model.\<close>

datatype endian = LittleEndian | BigEndian

text \<open>The expression of \<open>byteSwap\<close>:
  \<open>(uint32_t)p[3] << 24 | (uint32_t)p[2] << 16 | (uint32_t)p[1] << 8 | p[0]\<close>.\<close>

definition le_word :: "u8 \<Rightarrow> u8 \<Rightarrow> u8 \<Rightarrow> u8 \<Rightarrow> u32" where
  "le_word p0 p1 p2 p3 =
     push_bit 24 (ucast p3) OR push_bit 16 (ucast p2) OR push_bit 8 (ucast p1) OR ucast p0"

definition le_bytes :: "u32 \<Rightarrow> u8 list" where
  "le_bytes w = [ucast w, ucast (drop_bit 8 w), ucast (drop_bit 16 w), ucast (drop_bit 24 w)]"

text \<open>The four bytes a \<open>uint32_t\<close> occupies on the host, lowest address first, and
  the value the host reads from four bytes.\<close>

definition word_bytes :: "endian \<Rightarrow> u32 \<Rightarrow> u8 list" where
  "word_bytes h w = (case h of LittleEndian \<Rightarrow> le_bytes w | BigEndian \<Rightarrow> rev (le_bytes w))"

definition bytes_word :: "endian \<Rightarrow> u8 list \<Rightarrow> u32" where
  "bytes_word h p =
     (case h of
        LittleEndian \<Rightarrow> le_word (p ! 0) (p ! 1) (p ! 2) (p ! 3)
      | BigEndian \<Rightarrow> le_word (p ! 3) (p ! 2) (p ! 1) (p ! 0))"

text \<open>\<open>mem_of h ws\<close> is the array \<open>ws\<close> as \<open>(uint8_t*)ws\<close> sees it;
  \<open>words_of h bs\<close> is the array whose bytes are \<open>bs\<close>.\<close>

definition mem_of :: "endian \<Rightarrow> u32 list \<Rightarrow> u8 list" where
  "mem_of h ws = concat (map (word_bytes h) ws)"

fun words_of :: "endian \<Rightarrow> u8 list \<Rightarrow> u32 list" where
  "words_of h (p0 # p1 # p2 # p3 # bs) = bytes_word h [p0, p1, p2, p3] # words_of h bs"
| "words_of h bs = []"

text \<open>Writes through a byte pointer into a word array: \<open>off\<close> is the distance of
  the pointer from the start of the array. A write that leaves the array is
  \<open>None\<close>.\<close>

definition poke :: "endian \<Rightarrow> u32 list \<Rightarrow> nat \<Rightarrow> u8 \<Rightarrow> u32 list option" where
  "poke h dst off v =
     (if off < 4 * length dst then Some (words_of h ((mem_of h dst)[off := v])) else None)"

definition memcpy_to :: "endian \<Rightarrow> u32 list \<Rightarrow> nat \<Rightarrow> u8 list \<Rightarrow> u32 list option" where
  "memcpy_to h dst off src =
     (if off + length src \<le> 4 * length dst
      then Some (words_of h (take off (mem_of h dst) @ src @ drop (off + length src) (mem_of h dst)))
      else None)"

definition memset_to :: "endian \<Rightarrow> u32 list \<Rightarrow> nat \<Rightarrow> u8 \<Rightarrow> nat \<Rightarrow> u32 list option" where
  "memset_to h dst off v n =
     (if off + n \<le> 4 * length dst
      then Some (words_of h (take off (mem_of h dst) @ replicate n v @ drop (off + n) (mem_of h dst)))
      else None)"

text \<open>\<open>byteSwap(buf, words)\<close> walks the array from \<open>buf\<close>: each of the first
  \<open>words\<close> words is replaced by the little-endian reading of its own bytes.\<close>

fun byteSwap :: "endian \<Rightarrow> u32 list \<Rightarrow> nat \<Rightarrow> u32 list option" where
  "byteSwap h ws 0 = Some ws"
| "byteSwap h [] (Suc n) = None"
| "byteSwap h (w # ws) (Suc n) =
     (let p = word_bytes h w
      in map_option ((#) (le_word (p ! 0) (p ! 1) (p ! 2) (p ! 3))) (byteSwap h ws n))"

section \<open>The context and the three operations\<close>

text \<open>Modelled from the spec: the header \<open>md5.h\<close> that declares
  \<open>struct md5Context\<close> is not among the sources. The spec gives 4 state words of
  32 bits, a 64-byte block buffer and a 64-bit byte counter; the source uses the
  fields as \<open>uint32_t buf[4]\<close>, an integer \<open>bytes\<close> wider than 32 bits and
  \<open>uint32_t in[16]\<close> (named \<open>inbuf\<close> here).\<close>

record md5Context =
  buf :: "u32 list"
  bytes :: u64
  inbuf :: "u32 list"

definition md5Init :: "md5Context \<Rightarrow> md5Context" where
  "md5Init ctx =
     ctx\<lparr>buf := (buf ctx)[0 := 0x67452301, 1 := 0xefcdab89, 2 := 0x98badcfe, 3 := 0x10325476],
         bytes := 0\<rparr>"

text \<open>The loop of \<open>md5Update\<close> over whole 64-byte chunks, with the final copy of the
  remaining bytes. \<open>data\<close> is what \<open>buf\<close> points to, \<open>length data\<close> is
  \<open>len\<close>.\<close>

function md5Update_loop :: "endian \<Rightarrow> md5Context \<Rightarrow> u8 list \<Rightarrow> md5Context option" where
  "md5Update_loop h ctx data =
     (if length data \<ge> 64
      then do {
        in1 \<leftarrow> memcpy_to h (inbuf ctx) 0 (take 64 data);
        in2 \<leftarrow> byteSwap h in1 16;
        md5Update_loop h (ctx\<lparr>inbuf := in2, buf := md5Transform (buf ctx) in2\<rparr>) (drop 64 data)
      }
      else do {
        in1 \<leftarrow> memcpy_to h (inbuf ctx) 0 data;
        Some (ctx\<lparr>inbuf := in1\<rparr>)
      })"
  by pat_completeness auto
termination
  by (relation "measure (\<lambda>(h, ctx, data). length data)") auto

definition md5Update :: "endian \<Rightarrow> md5Context \<Rightarrow> u8 list \<Rightarrow> md5Context option" where
  "md5Update h ctx data =
     (let t = (ucast (64 - (bytes ctx AND 0x3f)) :: u32);
          len = length data;
          ctx = ctx\<lparr>bytes := bytes ctx + of_nat len\<rparr>
      in if unat t > len
         then do {
           in1 \<leftarrow> memcpy_to h (inbuf ctx) (64 - unat t) data;
           Some (ctx\<lparr>inbuf := in1\<rparr>)
         }
         else do {
           in1 \<leftarrow> memcpy_to h (inbuf ctx) (64 - unat t) (take (unat t) data);
           in2 \<leftarrow> byteSwap h in1 16;
           md5Update_loop h (ctx\<lparr>inbuf := in2, buf := md5Transform (buf ctx) in2\<rparr>)
             (drop (unat t) data)
         })"

text \<open>The number of calls of \<open>md5Transform\<close> that \<open>md5Update\<close> makes: none on the
  early return, otherwise one for the first chunk and one per turn of the loop.\<close>

definition md5Update_transforms :: "md5Context \<Rightarrow> u8 list \<Rightarrow> nat" where
  "md5Update_transforms ctx data =
     (let t = (ucast (64 - (bytes ctx AND 0x3f)) :: u32);
          len = length data
      in if unat t > len then 0 else 1 + (len - unat t) div 64)"

text \<open>\<open>md5Final\<close> up to the last call of \<open>md5Transform\<close>: the padding and the
  length words. \<open>count\<close> is the \<open>int\<close> of the source, \<open>p\<close> the distance of the
  pointer \<open>p\<close> from the start of \<open>ctx->in\<close>. The result is the pair of
  \<open>ctx->buf\<close> and \<open>ctx->in\<close> at that call.\<close>

definition md5Final_pad :: "endian \<Rightarrow> md5Context \<Rightarrow> (u32 list \<times> u32 list) option" where
  "md5Final_pad h ctx =
     (let count = int (unat (bytes ctx AND 0x3f));
          p = nat count
      in do {
        in1 \<leftarrow> poke h (inbuf ctx) p 0x80;
        let p = p + 1;
        let count = 56 - 1 - count;
        (st, in3, p, count) \<leftarrow>
          (if count < 0
           then do {
             in2 \<leftarrow> memset_to h in1 p 0 (nat (count + 8));
             in3 \<leftarrow> byteSwap h in2 16;
             Some (md5Transform (buf ctx) in3, in3, 0, 56)
           }
           else Some (buf ctx, in1, p, count));
        in4 \<leftarrow> memset_to h in3 p 0 (nat count);
        in5 \<leftarrow> byteSwap h in4 14;
        let in6 = in5[14 := ucast (push_bit 3 (bytes ctx) AND 0xFFFFFFFF)];
        let in7 = in6[15 := ucast (drop_bit 29 (bytes ctx) AND 0xFFFFFFFF)];
        Some (st, in7)
      })"

text \<open>\<open>md5Final\<close> returns the 16 bytes written to \<open>digest\<close> and the context after
  the final \<open>memset\<close>.\<close>

definition md5Final :: "endian \<Rightarrow> md5Context \<Rightarrow> (u8 list \<times> md5Context) option" where
  "md5Final h ctx =
     do {
       (st, in7) \<leftarrow> md5Final_pad h ctx;
       st1 \<leftarrow> byteSwap h (md5Transform st in7) 4;
       Some (take 16 (mem_of h st1),
             \<lparr>buf = replicate 4 0, bytes = 0, inbuf = replicate 16 0\<rparr>)
     }"

text \<open>The one-shot \<open>md5(buf, len, digest)\<close>. Its local \<open>context\<close> is not
  initialised by the declaration; \<open>context\<close> stands for whatever it holds.\<close>

definition md5 :: "endian \<Rightarrow> md5Context \<Rightarrow> u8 list \<Rightarrow> u8 list option" where
  "md5 h context data =
     do {
       ctx \<leftarrow> md5Update h (md5Init context) data;
       (digest, ctx) \<leftarrow> md5Final h ctx;
       Some digest
     }"

section \<open>Notions used to state the properties\<close>

text \<open>The shape the \<open>struct\<close> gives every context: 4 state words and 16 buffer
  words.\<close>

definition wf_ctx :: "md5Context \<Rightarrow> bool" where
  "wf_ctx ctx \<longleftrightarrow> length (buf ctx) = 4 \<and> length (inbuf ctx) = 16"

text \<open>The meaningful part of the block buffer: its first \<open>bytes mod 64\<close> bytes.\<close>

definition buffered :: "endian \<Rightarrow> md5Context \<Rightarrow> u8 list" where
  "buffered h ctx = take (unat (bytes ctx AND 0x3f)) (mem_of h (inbuf ctx))"

text \<open>A sequence of \<open>md5Update\<close> calls, one per piece.\<close>

fun md5Updates :: "endian \<Rightarrow> md5Context \<Rightarrow> u8 list list \<Rightarrow> md5Context option" where
  "md5Updates h ctx [] = Some ctx"
| "md5Updates h ctx (piece # pieces) =
     (case md5Update h ctx piece of None \<Rightarrow> None | Some ctx' \<Rightarrow> md5Updates h ctx' pieces)"

text \<open>\<open>init\<close>, one \<open>update\<close> per piece, \<open>finalize\<close>; the digest is returned.\<close>

definition md5_stream :: "endian \<Rightarrow> md5Context \<Rightarrow> u8 list list \<Rightarrow> u8 list option" where
  "md5_stream h context pieces =
     (case md5Updates h (md5Init context) pieces of
        None \<Rightarrow> None
      | Some ctx \<Rightarrow> map_option fst (md5Final h ctx))"

text \<open>The whole 64-byte blocks of a byte stream, each as 16 little-endian words, and
  the bytes after the last whole block.\<close>

function md5_blocks :: "u8 list \<Rightarrow> u32 list list" where
  "md5_blocks bs =
     (if 64 \<le> length bs
      then words_of LittleEndian (take 64 bs) # md5_blocks (drop 64 bs)
      else [])"
  by pat_completeness auto
termination
  by (relation "measure length") auto

definition md5_rest :: "u8 list \<Rightarrow> u8 list" where
  "md5_rest bs = drop (64 * (length bs div 64)) bs"

definition md5_iv :: "u32 list" where
  "md5_iv = [0x67452301, 0xefcdab89, 0x98badcfe, 0x10325476]"

text \<open>The 8 bytes of the bit count \<open>8 * cnt\<close> (modulo \<open>2 ^ 64\<close>), least significant
  byte first.\<close>

definition md5_length_bytes :: "u64 \<Rightarrow> u8 list" where
  "md5_length_bytes cnt = map (\<lambda>i. ucast (drop_bit (8 * i) (cnt * 8))) [0..<8]"

text \<open>The padding for \<open>n\<close> buffered bytes: the marker, zero bytes up to offset 56
  of the same block (\<open>n < 56\<close>) or of the next one, and the bit count.\<close>

definition md5_padding :: "nat \<Rightarrow> u64 \<Rightarrow> u8 list" where
  "md5_padding n cnt =
     0x80 # replicate (if n < 56 then 55 - n else 119 - n) 0 @ md5_length_bytes cnt"

text \<open>The digest of a byte stream as the padded stream folded through
  \<open>md5Transform\<close>, written out least significant byte first.\<close>

definition md5_digest :: "u8 list \<Rightarrow> u8 list" where
  "md5_digest s =
     mem_of LittleEndian
       (foldl md5Transform md5_iv
          (md5_blocks (s @ md5_padding (length s mod 64) (of_nat (length s)))))"

section \<open>The compression step as the spec words it\<close>

text \<open>The nonlinear function of round group \<open>g\<close> (0 to 3) on the registers
  \<open>(b, c, d)\<close>.\<close>

definition md5_F :: "nat \<Rightarrow> u32 \<Rightarrow> u32 \<Rightarrow> u32 \<Rightarrow> u32" where
  "md5_F g b c d =
     (if g = 0 then d XOR (b AND (c XOR d))
      else if g = 1 then c XOR (d AND (b XOR c))
      else if g = 2 then b XOR c XOR d
      else c XOR (b OR NOT d))"

text \<open>The rotation amounts of the four groups; a group cycles through its four.\<close>

definition md5_rotations :: "nat list list" where
  "md5_rotations = [[7, 12, 17, 22], [5, 9, 14, 20], [4, 11, 16, 23], [6, 10, 15, 21]]"

text \<open>The word index and the constant of each of the 64 rounds.\<close>

definition md5_index :: "nat list" where
  "md5_index =
    [0, 1, 2, 3, 4, 5, 6, 7, 8, 9, 10, 11, 12, 13, 14, 15,
     1, 6, 11, 0, 5, 10, 15, 4, 9, 14, 3, 8, 13, 2, 7, 12,
     5, 8, 11, 14, 1, 4, 7, 10, 13, 0, 3, 6, 9, 12, 15, 2,
     0, 7, 14, 5, 12, 3, 10, 1, 8, 15, 6, 13, 4, 11, 2, 9]"

definition md5_constant :: "u32 list" where
  "md5_constant =
    [0xd76aa478, 0xe8c7b756, 0x242070db, 0xc1bdceee,
     0xf57c0faf, 0x4787c62a, 0xa8304613, 0xfd469501,
     0x698098d8, 0x8b44f7af, 0xffff5bb1, 0x895cd7be,
     0x6b901122, 0xfd987193, 0xa679438e, 0x49b40821,
     0xf61e2562, 0xc040b340, 0x265e5a51, 0xe9b6c7aa,
     0xd62f105d, 0x02441453, 0xd8a1e681, 0xe7d3fbc8,
     0x21e1cde6, 0xc33707d6, 0xf4d50d87, 0x455a14ed,
     0xa9e3e905, 0xfcefa3f8, 0x676f02d9, 0x8d2a4c8a,
     0xfffa3942, 0x8771f681, 0x6d9d6122, 0xfde5380c,
     0xa4beea44, 0x4bdecfa9, 0xf6bb4b60, 0xbebfbc70,
     0x289b7ec6, 0xeaa127fa, 0xd4ef3085, 0x04881d05,
     0xd9d4d039, 0xe6db99e5, 0x1fa27cf8, 0xc4ac5665,
     0xf4292244, 0x432aff97, 0xab9423a7, 0xfc93a039,
     0x655b59c3, 0x8f0ccc92, 0xffeff47d, 0x85845dd1,
     0x6fa87e4f, 0xfe2ce6e0, 0xa3014314, 0x4e0811a1,
     0xf7537e82, 0xbd3af235, 0x2ad7d2bb, 0xeb86d391]"

text \<open>The table of the 64 rounds: group, word index, constant, rotation.\<close>

definition md5_table :: "(nat \<times> nat \<times> u32 \<times> nat) list" where
  "md5_table =
     map (\<lambda>i. (i div 16, md5_index ! i, md5_constant ! i, md5_rotations ! (i div 16) ! (i mod 4)))
       [0..<64]"

text \<open>One round: \<open>a' = b + rotate_left(a + F(b,c,d) + word[index] + constant, rotation)\<close>,
  then the registers \<open>(a,b,c,d)\<close> take the roles \<open>(d,a',b,c)\<close>.\<close>

definition md5_round ::
  "u32 list \<Rightarrow> nat \<times> nat \<times> u32 \<times> nat \<Rightarrow> u32 \<times> u32 \<times> u32 \<times> u32 \<Rightarrow> u32 \<times> u32 \<times> u32 \<times> u32" where
  "md5_round blk r regs =
     (case r of (g, i, k, s) \<Rightarrow>
      case regs of (a, b, c, d) \<Rightarrow>
        (d, b + word_rotl s (a + md5_F g b c d + blk ! i + k), b, c))"

text \<open>The 64 rounds from the state words, then the addition to the state words.\<close>

definition md5_schedule :: "u32 list \<Rightarrow> u32 list \<Rightarrow> u32 list" where
  "md5_schedule st blk =
     (case foldl (\<lambda>regs r. md5_round blk r regs) (st ! 0, st ! 1, st ! 2, st ! 3) md5_table of
        (a, b, c, d) \<Rightarrow> [st ! 0 + a, st ! 1 + b, st ! 2 + c, st ! 3 + d])"

section \<open>Inputs and contexts used in the statements\<close>

text \<open>The bytes of an ASCII string.\<close>

definition ascii :: "string \<Rightarrow> u8 list" where
  "ascii s = map (\<lambda>c. of_nat (of_char c)) s"

text \<open>The context as the final \<open>memset\<close> of \<open>md5Final\<close> leaves it.\<close>

definition md5_cleared :: md5Context where
  "md5_cleared = \<lparr>buf = replicate 4 0, bytes = 0, inbuf = replicate 16 0\<rparr>"

text \<open>A stream of \<open>2 ^ 64\<close> bytes, in \<open>2 ^ 32\<close> pieces of \<open>2 ^ 32\<close> zero bytes.\<close>

definition long_stream :: "u8 list list" where
  "long_stream = replicate (2 ^ 32) (replicate (2 ^ 32) 0)"

text \<open>Two contexts with one buffered byte each, which differ only in the buffer bytes
  after it.\<close>

definition stale_a :: md5Context where
  "stale_a = \<lparr>buf = [1, 2, 3, 4], bytes = 1, inbuf = 0x11223344 # replicate 15 0\<rparr>"

definition stale_b :: md5Context where
  "stale_b = \<lparr>buf = [1, 2, 3, 4], bytes = 1, inbuf = 0x55667744 # replicate 15 7\<rparr>"

section \<open>Bytes and words\<close>

lemma ucast_le_word0: "(ucast (le_word a b c d) :: u8) = a"
  unfolding le_word_def
  by (rule bit_word_eqI) (auto simp add: bit_simps dest: bit_imp_le_length)

lemma ucast_le_word1: "(ucast (drop_bit 8 (le_word a b c d)) :: u8) = b"
  unfolding le_word_def
  by (rule bit_word_eqI) (auto simp add: bit_simps dest: bit_imp_le_length)

lemma ucast_le_word2: "(ucast (drop_bit 16 (le_word a b c d)) :: u8) = c"
  unfolding le_word_def
  by (rule bit_word_eqI) (auto simp add: bit_simps dest: bit_imp_le_length)

lemma ucast_le_word3: "(ucast (drop_bit 24 (le_word a b c d)) :: u8) = d"
  unfolding le_word_def
  by (rule bit_word_eqI) (auto simp add: bit_simps dest: bit_imp_le_length)

lemma le_bytes_le_word: "le_bytes (le_word a b c d) = [a, b, c, d]"
  by (simp add: le_bytes_def ucast_le_word0 ucast_le_word1 ucast_le_word2 ucast_le_word3)

lemma le_word_le_bytes:
  "le_word (ucast w) (ucast (drop_bit 8 w)) (ucast (drop_bit 16 w)) (ucast (drop_bit 24 w)) = w"
  unfolding le_word_def
proof (rule bit_word_eqI)
  fix n :: nat
  assume n: "n < LENGTH(32)"
  then consider "n < 8" | "8 \<le> n \<and> n < 16" | "16 \<le> n \<and> n < 24" | "24 \<le> n \<and> n < 32"
    by fastforce
  then show "bit (push_bit 24 (ucast (ucast (drop_bit 24 w) :: u8)) OR
              push_bit 16 (ucast (ucast (drop_bit 16 w) :: u8)) OR
              push_bit 8 (ucast (ucast (drop_bit 8 w) :: u8)) OR ucast (ucast w :: u8) :: u32) n = bit w n"
    by cases (auto simp add: bit_simps)
qed

lemma list4: "length xs = 4 \<Longrightarrow> \<exists>a b c d. xs = [a, b, c, d]"
  by (auto simp add: eval_nat_numeral length_Suc_conv)

lemma length_le_bytes: "length (le_bytes w) = 4"
  by (simp add: le_bytes_def)

lemma length_word_bytes: "length (word_bytes h w) = 4"
  by (cases h) (simp_all add: word_bytes_def length_le_bytes)

lemma word_bytes_bytes_word: "word_bytes h (bytes_word h [a, b, c, d]) = [a, b, c, d]"
  by (cases h) (simp_all add: word_bytes_def bytes_word_def le_bytes_le_word)

lemma bytes_word_word_bytes: "bytes_word h (word_bytes h w) = w"
  by (cases h) (simp_all add: word_bytes_def bytes_word_def le_bytes_def le_word_le_bytes)

lemma length_mem_of: "length (mem_of h ws) = 4 * length ws"
  by (induction ws) (simp_all add: mem_of_def length_word_bytes)

lemma length_words_of: "length (words_of h bs) = length bs div 4"
  by (induction h bs rule: words_of.induct) simp_all

lemma mem_of_words_of: "4 dvd length bs \<Longrightarrow> mem_of h (words_of h bs) = bs"
proof (induction h bs rule: words_of.induct)
  case (1 h p0 p1 p2 p3 bs)
  then have "4 dvd length bs" by simp presburger
  with 1 show ?case by (simp add: mem_of_def word_bytes_bytes_word)
qed (simp_all add: mem_of_def, presburger+)

lemma words_of_word_bytes: "words_of h (word_bytes h w @ bs) = w # words_of h bs"
proof -
  obtain a b c d where p: "word_bytes h w = [a, b, c, d]"
    using length_word_bytes [of h w] list4 by blast
  have "bytes_word h [a, b, c, d] = w"
    using bytes_word_word_bytes [of h w] by (simp add: p)
  then show ?thesis by (simp add: p)
qed

lemma words_of_mem_of: "words_of h (mem_of h ws) = ws"
  by (induction ws) (simp_all add: mem_of_def words_of_word_bytes)

lemma length_Let: "length (Let e f) = (let x = e in length (f x))"
  by (simp add: Let_def)

lemma Let_const: "(let x = e in c) = c"
  by (simp add: Let_def)

lemma length_md5Transform: "length (md5Transform st blk) = length st"
  unfolding md5Transform_def
  by (simp only: length_Let Let_def [where 'a = "u32 list"] length_list_update Let_const)

lemma list_ge4: "4 \<le> length bs \<Longrightarrow> \<exists>a b c d r. bs = a # b # c # d # r"
  by (auto simp add: eval_nat_numeral Suc_le_length_iff)

lemma bytes_word_LE: "bytes_word LittleEndian [a, b, c, d] = le_word a b c d"
  by (simp add: bytes_word_def)

lemma byteSwap_head:
  "byteSwap h (bytes_word h [a, b, c, d] # ws) (Suc n) =
     map_option ((#) (le_word a b c d)) (byteSwap h ws n)"
  by (simp add: word_bytes_bytes_word)

lemma byteSwap_words_of:
  "4 * n \<le> length bs \<Longrightarrow>
   byteSwap h (words_of h bs) n =
     Some (words_of LittleEndian (take (4 * n) bs) @ words_of h (drop (4 * n) bs))"
proof (induction n arbitrary: bs)
  case 0
  then show ?case by simp
next
  case (Suc n)
  then obtain a b c d r where bs: "bs = a # b # c # d # r"
    using list_ge4 [of bs] by auto
  with Suc.prems have "4 * n \<le> length r" by simp
  have four: "4 * Suc n = Suc (Suc (Suc (Suc (4 * n))))" by simp
  from Suc.IH [OF \<open>4 * n \<le> length r\<close>] show ?case
    unfolding bs four by (simp add: word_bytes_bytes_word bytes_word_LE)
qed

lemma byteSwap_16:
  "length bs = 64 \<Longrightarrow> byteSwap h (words_of h bs) 16 = Some (words_of LittleEndian bs)"
  using byteSwap_words_of [where n = 16 and bs = bs and h = h] by simp

lemma byteSwap_14:
  "length bs = 64 \<Longrightarrow>
   byteSwap h (words_of h bs) 14 =
     Some (words_of LittleEndian (take 56 bs) @ words_of h (drop 56 bs))"
  using byteSwap_words_of [where n = 14 and bs = bs and h = h] by simp

lemma byteSwap_Cons:
  "byteSwap h (w # ws) (Suc n) =
     map_option ((#) (bytes_word LittleEndian (word_bytes h w))) (byteSwap h ws n)"
  by (simp add: bytes_word_def Let_def)

lemma word_bytes_swap:
  "word_bytes h (bytes_word LittleEndian (word_bytes h w)) = le_bytes w"
proof (cases h)
  case LittleEndian
  then show ?thesis
    using bytes_word_word_bytes [of LittleEndian w] by (simp add: word_bytes_def)
next
  case BigEndian
  obtain a b c d where p: "rev (le_bytes w) = [a, b, c, d]"
    using length_le_bytes [of w] list4 [of "rev (le_bytes w)"] by auto
  then have "le_bytes w = [d, c, b, a]"
    by (simp add: rev_swap)
  with p BigEndian show ?thesis
    by (simp add: word_bytes_def bytes_word_LE le_bytes_le_word)
qed

lemma byteSwap_all:
  "\<exists>ws'. byteSwap h ws (length ws) = Some ws' \<and> mem_of h ws' = mem_of LittleEndian ws"
proof (induction ws)
  case Nil
  then show ?case by (simp add: mem_of_def)
next
  case (Cons w ws)
  then obtain ws' where "byteSwap h ws (length ws) = Some ws'"
    and "mem_of h ws' = mem_of LittleEndian ws" by blast
  then show ?case
    by (simp add: mem_of_def byteSwap_Cons word_bytes_swap del: byteSwap.simps)
      (simp add: word_bytes_def)
qed

section \<open>The update operation\<close>

declare md5Update_loop.simps [simp del]
declare md5_blocks.simps [simp del]

lemma unat_and_3f: "unat ((w :: u64) AND 0x3f) = unat w mod 64"
proof -
  have "(0x3f :: u64) = mask 6" by (simp add: mask_eq_exp_minus_1)
  then have "w AND 0x3f = take_bit 6 w" by (simp add: take_bit_eq_mask)
  then show ?thesis by (simp add: take_bit_eq_mod unat_mod_distrib)
qed

lemma unat_t: "unat (ucast (64 - ((w :: u64) AND 0x3f)) :: u32) = 64 - unat w mod 64"
proof -
  let ?x = "w AND 0x3f"
  have x: "unat ?x = unat w mod 64" by (rule unat_and_3f)
  then have "unat ?x < 64" by simp
  then have le: "?x \<le> 64" by (simp add: word_le_nat_alt)
  have "unat (64 - ?x) = 64 - unat ?x"
    using unat_sub [OF le] by simp
  moreover have "take_bit 32 (64 - unat w mod 64) = 64 - unat w mod 64"
    by (rule take_bit_nat_eq_self) (simp add: less_le_trans [of _ 65])
  ultimately show ?thesis
    by (simp add: unsigned_ucast_eq x)
qed


lemma unat_add_of_nat_mod64:
  "unat ((w :: u64) + of_nat k) mod 64 = (unat w mod 64 + k) mod 64"
proof -
  have "unat (w + of_nat k) = (unat w + k mod 2 ^ 64) mod 2 ^ 64"
    by (simp add: unat_word_ariths unat_of_nat)
  also have "\<dots> = (unat w + k) mod 2 ^ 64"
    by (simp add: mod_add_right_eq)
  finally have "unat (w + of_nat k) mod 64 = (unat w + k) mod 2 ^ 64 mod 64"
    by simp
  also have "\<dots> = (unat w + k) mod 64"
    by (rule mod_mod_cancel) simp
  finally show ?thesis
    by (simp add: mod_add_left_eq)
qed

lemma length_foldl_md5Transform:
  "length (foldl md5Transform st blks) = length st"
  by (induction blks arbitrary: st) (simp_all add: length_md5Transform)

lemma md5_blocks_short: "length bs < 64 \<Longrightarrow> md5_blocks bs = []"
  by (subst md5_blocks.simps) simp

lemma md5_blocks_long:
  "64 \<le> length bs \<Longrightarrow>
   md5_blocks bs = words_of LittleEndian (take 64 bs) # md5_blocks (drop 64 bs)"
  by (subst md5_blocks.simps) simp

lemma md5_rest_short: "length bs < 64 \<Longrightarrow> md5_rest bs = bs"
  by (simp add: md5_rest_def)

lemma md5_rest_long: "64 \<le> length bs \<Longrightarrow> md5_rest bs = md5_rest (drop 64 bs)"
proof -
  assume a: "64 \<le> length bs"
  then have "64 * ((length bs - 64) div 64) + 64 = 64 * (length bs div 64)"
    by (simp add: le_div_geq)
  then show ?thesis
    by (simp add: md5_rest_def)
qed

lemma length_md5_rest: "length (md5_rest bs) = length bs mod 64"
  by (simp add: md5_rest_def minus_mult_div_eq_mod)

lemma memcpy_to_whole:
  "length dst = 16 \<Longrightarrow> length src = 64 \<Longrightarrow> memcpy_to h dst 0 src = Some (words_of h src)"
  by (simp add: memcpy_to_def length_mem_of)

lemma memcpy_to_mem:
  assumes "length dst = 16" and "off + length src \<le> 64"
  shows "\<exists>d. memcpy_to h dst off src = Some d \<and> length d = 16 \<and>
    mem_of h d = take off (mem_of h dst) @ src @ drop (off + length src) (mem_of h dst)"
proof -
  let ?bs = "take off (mem_of h dst) @ src @ drop (off + length src) (mem_of h dst)"
  have len: "length ?bs = 64"
    using assms by (simp add: length_mem_of)
  then have "mem_of h (words_of h ?bs) = ?bs"
    by (intro mem_of_words_of) simp
  moreover have "length (words_of h ?bs) = 16"
    using len by (simp add: length_words_of)
  ultimately show ?thesis
    using assms by (simp add: memcpy_to_def)
qed

lemma byteSwap_whole:
  "length ws = 16 \<Longrightarrow> byteSwap h ws 16 = Some (words_of LittleEndian (mem_of h ws))"
  using byteSwap_16 [of "mem_of h ws" h] by (simp add: length_mem_of words_of_mem_of)

lemma md5Update_loop_Some:
  assumes "length (inbuf ctx) = 16"
  shows "\<exists>c'. md5Update_loop h ctx data = Some c' \<and>
    buf c' = foldl md5Transform (buf ctx) (md5_blocks data) \<and>
    bytes c' = bytes ctx \<and> length (inbuf c') = 16 \<and>
    take (length data mod 64) (mem_of h (inbuf c')) = md5_rest data"
  using assms
proof (induction "length data" arbitrary: ctx data rule: less_induct)
  case less
  show ?case
  proof (cases "64 \<le> length data")
    case True
    let ?in2 = "words_of LittleEndian (take 64 data)"
    let ?c = "ctx\<lparr>inbuf := ?in2, buf := md5Transform (buf ctx) ?in2\<rparr>"
    have m: "memcpy_to h (inbuf ctx) 0 (take 64 data) = Some (words_of h (take 64 data))"
      using True less.prems by (simp add: memcpy_to_whole)
    have s: "byteSwap h (words_of h (take 64 data)) 16 = Some ?in2"
      by (rule byteSwap_16) (simp add: True)
    have step: "md5Update_loop h ctx data = md5Update_loop h ?c (drop 64 data)"
      by (subst md5Update_loop.simps) (simp add: True m s)
    have "length (drop 64 data) < length data"
      using True by simp
    moreover have "length (inbuf ?c) = 16"
      using True by (simp add: length_words_of)
    ultimately obtain c' where c': "md5Update_loop h ?c (drop 64 data) = Some c'"
      "buf c' = foldl md5Transform (buf ?c) (md5_blocks (drop 64 data))"
      "bytes c' = bytes ?c" "length (inbuf c') = 16"
      "take (length (drop 64 data) mod 64) (mem_of h (inbuf c')) = md5_rest (drop 64 data)"
      using less.hyps [of "drop 64 data" ?c] by blast
    have "length (drop 64 data) mod 64 = length data mod 64"
      using True by (simp add: le_mod_geq)
    with c' step show ?thesis
      by (simp add: md5_blocks_long [OF True] md5_rest_long [OF True])
  next
    case False
    then have short: "length data < 64" by simp
    obtain d where d: "memcpy_to h (inbuf ctx) 0 data = Some d" "length d = 16"
      "mem_of h d = take 0 (mem_of h (inbuf ctx)) @ data @ drop (0 + length data) (mem_of h (inbuf ctx))"
      using memcpy_to_mem [of "inbuf ctx" 0 data h] less.prems short by auto
    have "md5Update_loop h ctx data = Some (ctx\<lparr>inbuf := d\<rparr>)"
      by (subst md5Update_loop.simps) (simp add: False d)
    with d short show ?thesis
      by (simp add: md5_blocks_short md5_rest_short)
  qed
qed

lemma take_append_len: "length xs = n \<Longrightarrow> take n (xs @ ys) = xs"
  by simp

lemma drop_append_len: "length xs = n \<Longrightarrow> drop n (xs @ ys) = ys"
  by simp

lemma length_buffered: "length (inbuf ctx) = 16 \<Longrightarrow> length (buffered h ctx) = unat (bytes ctx) mod 64"
  by (simp add: buffered_def unat_and_3f length_mem_of)

lemma md5Update_Some:
  assumes wf: "wf_ctx ctx"
  shows "\<exists>c'. md5Update h ctx data = Some c' \<and> wf_ctx c' \<and>
    bytes c' = bytes ctx + of_nat (length data) \<and>
    buf c' = foldl md5Transform (buf ctx) (md5_blocks (buffered h ctx @ data)) \<and>
    buffered h c' = md5_rest (buffered h ctx @ data)"
proof -
  let ?M = "mem_of h (inbuf ctx)"
  let ?n = "unat (bytes ctx) mod 64"
  let ?P = "buffered h ctx"
  let ?len = "length data"
  let ?b = "bytes ctx + of_nat ?len"
  from wf have l16: "length (inbuf ctx) = 16" and l4: "length (buf ctx) = 4"
    by (simp_all add: wf_ctx_def)
  have lM: "length ?M = 64" by (simp add: length_mem_of l16)
  have P: "?P = take ?n ?M" by (simp add: buffered_def unat_and_3f)
  have lP: "length ?P = ?n" by (simp add: P lM)
  have n': "unat ?b mod 64 = (?n + ?len) mod 64" by (rule unat_add_of_nat_mod64)
  show ?thesis
  proof (cases "64 - ?n > ?len")
    case True
    then have lt: "?n + ?len < 64" by simp
    obtain d where d: "memcpy_to h (inbuf ctx) ?n data = Some d" "length d = 16"
      "mem_of h d = take ?n ?M @ data @ drop (?n + ?len) ?M"
      using memcpy_to_mem [of "inbuf ctx" ?n data h] l16 lt by auto
    let ?c = "ctx\<lparr>bytes := ?b, inbuf := d\<rparr>"
    have r: "md5Update h ctx data = Some ?c"
      using True d by (simp add: md5Update_def Let_def unat_t)
    have "buffered h ?c = take (?n + ?len) (take ?n ?M @ data @ drop (?n + ?len) ?M)"
      using lt by (simp add: buffered_def unat_and_3f n' d)
    also have "\<dots> = ?P @ data"
      using lM by (simp add: P)
    finally have "buffered h ?c = md5_rest (?P @ data)"
      using lt lP by (simp add: md5_rest_short)
    moreover have "md5_blocks (?P @ data) = []"
      using lt lP by (simp add: md5_blocks_short)
    ultimately show ?thesis
      using r d l4 by (simp add: wf_ctx_def)
  next
    case False
    let ?t = "64 - ?n"
    from False have ge: "?t \<le> ?len" by simp
    have tpos: "?n < 64" by simp
    let ?blk = "?P @ take ?t data"
    have lblk: "length ?blk = 64" using ge lP by simp
    obtain d where d: "memcpy_to h (inbuf ctx) ?n (take ?t data) = Some d" "length d = 16"
      "mem_of h d = take ?n ?M @ take ?t data @ drop (?n + length (take ?t data)) ?M"
      using memcpy_to_mem [of "inbuf ctx" ?n "take ?t data" h] l16 ge by auto
    have md: "mem_of h d = ?blk"
      using d(3) ge lM by (simp add: P)
    let ?in2 = "words_of LittleEndian ?blk"
    have s: "byteSwap h d 16 = Some ?in2"
      using byteSwap_whole [OF d(2), of h] by (simp add: md)
    let ?c = "ctx\<lparr>bytes := ?b, inbuf := ?in2, buf := md5Transform (buf ctx) ?in2\<rparr>"
    have r: "md5Update h ctx data = md5Update_loop h ?c (drop ?t data)"
      using False d(1) s by (simp add: md5Update_def Let_def unat_t)
    have "length (inbuf ?c) = 16"
      using lblk by (simp add: length_words_of)
    then obtain c' where c': "md5Update_loop h ?c (drop ?t data) = Some c'"
      "buf c' = foldl md5Transform (buf ?c) (md5_blocks (drop ?t data))"
      "bytes c' = bytes ?c" "length (inbuf c') = 16"
      "take (length (drop ?t data) mod 64) (mem_of h (inbuf c')) = md5_rest (drop ?t data)"
      using md5Update_loop_Some [of ?c h "drop ?t data"] by blast
    have split: "?P @ data = ?blk @ drop ?t data" by simp
    have long: "64 \<le> length (?P @ data)" using ge lP by simp
    have tk: "take 64 (?P @ data) = ?blk"
      by (subst split) (rule take_append_len [OF lblk])
    have dr: "drop 64 (?P @ data) = drop ?t data"
      by (subst split) (rule drop_append_len [OF lblk])
    have blocks: "md5_blocks (?P @ data) = ?in2 # md5_blocks (drop ?t data)"
      using md5_blocks_long [OF long] by (simp only: tk dr)
    have rest: "md5_rest (?P @ data) = md5_rest (drop ?t data)"
      using md5_rest_long [OF long] by (simp only: dr)
    have "(?n + ?len) mod 64 = (?len - ?t) mod 64"
    proof -
      have "?n + ?len = 64 + (?len - ?t)" using ge tpos by simp
      then show ?thesis by (metis mod_add_self1)
    qed
    then have "buffered h c' = md5_rest (drop ?t data)"
      using c'(3,5) by (simp add: buffered_def unat_and_3f n')
    moreover have "length (buf c') = 4"
      using c'(2) l4 by (simp add: length_foldl_md5Transform length_md5Transform)
    ultimately show ?thesis
      using r c' by (simp add: wf_ctx_def blocks rest)
  qed
qed

section \<open>The final operation\<close>

lemma words_of_append:
  "4 dvd length xs \<Longrightarrow> words_of h (xs @ ys) = words_of h xs @ words_of h ys"
proof (induction h xs rule: words_of.induct)
  case (1 h p0 p1 p2 p3 bs)
  then have "4 dvd length bs" by simp presburger
  with 1 show ?case by simp
qed (simp_all, presburger+)

lemma poke_mem:
  assumes "length dst = 16" and "off < 64"
  shows "\<exists>d. poke h dst off v = Some d \<and> length d = 16 \<and>
    mem_of h d = (mem_of h dst)[off := v]"
proof -
  let ?bs = "(mem_of h dst)[off := v]"
  have len: "length ?bs = 64"
    using assms by (simp add: length_mem_of)
  then have "mem_of h (words_of h ?bs) = ?bs"
    by (intro mem_of_words_of) simp
  moreover have "length (words_of h ?bs) = 16"
    using len by (simp add: length_words_of)
  ultimately show ?thesis
    using assms by (simp add: poke_def)
qed

lemma memset_to_mem:
  assumes "length dst = 16" and "off + n \<le> 64"
  shows "\<exists>d. memset_to h dst off v n = Some d \<and> length d = 16 \<and>
    mem_of h d = take off (mem_of h dst) @ replicate n v @ drop (off + n) (mem_of h dst)"
proof -
  let ?bs = "take off (mem_of h dst) @ replicate n v @ drop (off + n) (mem_of h dst)"
  have len: "length ?bs = 64"
    using assms by (simp add: length_mem_of)
  then have "mem_of h (words_of h ?bs) = ?bs"
    by (intro mem_of_words_of) simp
  moreover have "length (words_of h ?bs) = 16"
    using len by (simp add: length_words_of)
  ultimately show ?thesis
    using assms by (simp add: memset_to_def)
qed

lemma byteSwap_14_mem:
  assumes "length ws = 16"
  shows "\<exists>x y. byteSwap h ws 14 = Some (words_of LittleEndian (take 56 (mem_of h ws)) @ [x, y])"
proof -
  let ?bs = "mem_of h ws"
  have len: "length ?bs = 64" using assms by (simp add: length_mem_of)
  have "length (words_of h (drop 56 ?bs)) = 2"
    using len by (simp add: length_words_of)
  then obtain x y where "words_of h (drop 56 ?bs) = [x, y]"
    by (auto simp add: eval_nat_numeral length_Suc_conv)
  with byteSwap_14 [OF len, of h] show ?thesis
    by (simp add: words_of_mem_of)
qed

lemma set_trailer:
  "length xs = 14 \<Longrightarrow> (xs @ [x, y])[14 := lo, 15 := hi] = xs @ [lo, hi]"
  by (simp add: list_update_append)

lemma take_Suc_update: "n < length xs \<Longrightarrow> take (Suc n) (xs[n := v]) = take n xs @ [v]"
  by (simp add: take_Suc_conv_app_nth)

lemma md5Final_pad_low:
  assumes wf: "wf_ctx ctx" and low: "unat (bytes ctx) mod 64 < 56"
  shows "md5Final_pad h ctx =
    Some (buf ctx,
      words_of LittleEndian
        (buffered h ctx @ 0x80 # replicate (55 - unat (bytes ctx) mod 64) 0) @
      [ucast (push_bit 3 (bytes ctx) AND 0xFFFFFFFF),
       ucast (drop_bit 29 (bytes ctx) AND 0xFFFFFFFF)])"
proof -
  let ?M = "mem_of h (inbuf ctx)"
  let ?n = "unat (bytes ctx) mod 64"
  let ?P = "buffered h ctx"
  from wf have l16: "length (inbuf ctx) = 16" by (simp add: wf_ctx_def)
  have lM: "length ?M = 64" by (simp add: length_mem_of l16)
  have P: "?P = take ?n ?M" by (simp add: buffered_def unat_and_3f)
  obtain d1 where d1: "poke h (inbuf ctx) ?n 0x80 = Some d1" "length d1 = 16"
    "mem_of h d1 = ?M[?n := 0x80]"
    using poke_mem [where dst = "inbuf ctx" and off = ?n and h = h and v = "0x80"] l16 by auto
  obtain d4 where d4: "memset_to h d1 (Suc ?n) 0 (55 - ?n) = Some d4" "length d4 = 16"
    "mem_of h d4 = take (Suc ?n) (mem_of h d1) @ replicate (55 - ?n) 0 @
       drop (Suc ?n + (55 - ?n)) (mem_of h d1)"
    using memset_to_mem [where dst = d1 and off = "Suc ?n" and n = "55 - ?n" and h = h and v = 0] d1(2) low by auto
  have "take (Suc ?n) (mem_of h d1) = ?P @ [0x80]"
    using lM by (simp add: d1(3) P take_Suc_update)
  then have "mem_of h d4 = (?P @ 0x80 # replicate (55 - ?n) 0) @
      drop (Suc ?n + (55 - ?n)) (mem_of h d1)"
    by (simp add: d4(3))
  moreover have "length (?P @ 0x80 # replicate (55 - ?n) 0) = 56"
    using low lM by (simp add: P)
  ultimately have "take 56 (mem_of h d4) = ?P @ 0x80 # replicate (55 - ?n) 0"
    by (simp only: take_append_len)
  then obtain x y where s: "byteSwap h d4 14 =
      Some (words_of LittleEndian (?P @ 0x80 # replicate (55 - ?n) 0) @ [x, y])"
    using byteSwap_14_mem [OF d4(2), where h = h] by auto
  have "length (words_of LittleEndian (?P @ 0x80 # replicate (55 - ?n) 0)) = 14"
    using low lM by (simp add: length_words_of P)
  note upd = set_trailer [OF this]
  have c: "\<not> 55 - int ?n < 0" using low by simp
  have n: "nat (55 - int ?n) = 55 - ?n" by simp
  show ?thesis
    using c by (simp add: md5Final_pad_def Let_def unat_and_3f d1(1) d4(1) s n upd)
qed

lemma md5Final_pad_high:
  assumes wf: "wf_ctx ctx" and high: "56 \<le> unat (bytes ctx) mod 64"
  shows "md5Final_pad h ctx =
    Some (md5Transform (buf ctx)
        (words_of LittleEndian
          (buffered h ctx @ 0x80 # replicate (63 - unat (bytes ctx) mod 64) 0)),
      words_of LittleEndian (replicate 56 0) @
      [ucast (push_bit 3 (bytes ctx) AND 0xFFFFFFFF),
       ucast (drop_bit 29 (bytes ctx) AND 0xFFFFFFFF)])"
proof -
  let ?M = "mem_of h (inbuf ctx)"
  let ?n = "unat (bytes ctx) mod 64"
  let ?P = "buffered h ctx"
  from wf have l16: "length (inbuf ctx) = 16" by (simp add: wf_ctx_def)
  have lM: "length ?M = 64" by (simp add: length_mem_of l16)
  have P: "?P = take ?n ?M" by (simp add: buffered_def unat_and_3f)
  have n64: "?n < 64" by simp
  obtain d1 where d1: "poke h (inbuf ctx) ?n 0x80 = Some d1" "length d1 = 16"
    "mem_of h d1 = ?M[?n := 0x80]"
    using poke_mem [where dst = "inbuf ctx" and off = ?n and h = h and v = "0x80"] l16 by auto
  obtain d2 where d2: "memset_to h d1 (Suc ?n) 0 (63 - ?n) = Some d2" "length d2 = 16"
    "mem_of h d2 = take (Suc ?n) (mem_of h d1) @ replicate (63 - ?n) 0 @
       drop (Suc ?n + (63 - ?n)) (mem_of h d1)"
    using memset_to_mem [where dst = d1 and off = "Suc ?n" and n = "63 - ?n" and h = h and v = 0] d1(2) n64 by auto
  have "take (Suc ?n) (mem_of h d1) = ?P @ [0x80]"
    using lM by (simp add: d1(3) P take_Suc_update)
  moreover have "Suc ?n + (63 - ?n) = 64" using n64 by simp
  ultimately have m2: "mem_of h d2 = ?P @ 0x80 # replicate (63 - ?n) 0"
    using lM by (simp add: d2(3) d1(3))
  let ?in3 = "words_of LittleEndian (?P @ 0x80 # replicate (63 - ?n) 0)"
  have s3: "byteSwap h d2 16 = Some ?in3"
    using byteSwap_whole [OF d2(2), where h = h] by (simp add: m2)
  have l3: "length ?in3 = 16"
    using lM n64 by (simp add: length_words_of P)
  obtain d4 where d4: "memset_to h ?in3 0 0 56 = Some d4" "length d4 = 16"
    "mem_of h d4 = take 0 (mem_of h ?in3) @ replicate 56 0 @ drop (0 + 56) (mem_of h ?in3)"
    using memset_to_mem [where dst = ?in3 and off = 0 and n = 56 and h = h and v = 0] l3 by auto
  have "take 56 (mem_of h d4) = replicate 56 0"
    by (simp add: d4(3))
  then obtain x y where s: "byteSwap h d4 14 =
      Some (words_of LittleEndian (replicate 56 0) @ [x, y])"
    using byteSwap_14_mem [OF d4(2), where h = h] by auto
  have "length (words_of LittleEndian (replicate 56 (0 :: u8))) = 14"
    by (simp add: length_words_of)
  note upd = set_trailer [OF this]
  have c: "55 - int ?n < 0" using high by simp
  have n: "nat (63 - int ?n) = 63 - ?n" by simp
  show ?thesis
    using c by (simp add: md5Final_pad_def Let_def unat_and_3f d1(1) d2(1) s3 d4(1) s n upd)
qed

lemma upt8: "[0..<8] = [0, 1, 2, 3, 4, 5, 6, 7]"
  by code_simp

lemma md5_length_bytes_unfold:
  "md5_length_bytes cnt =
    [ucast (push_bit 3 cnt), ucast (drop_bit 8 (push_bit 3 cnt)),
     ucast (drop_bit 16 (push_bit 3 cnt)), ucast (drop_bit 24 (push_bit 3 cnt)),
     ucast (drop_bit 32 (push_bit 3 cnt)), ucast (drop_bit 40 (push_bit 3 cnt)),
     ucast (drop_bit 48 (push_bit 3 cnt)), ucast (drop_bit 56 (push_bit 3 cnt))]"
  by (simp add: md5_length_bytes_def upt8 push_bit_eq_mult mult.commute)

lemma mask32_numeral: "(0xFFFFFFFF :: u64) = mask 32"
  by (simp add: mask_eq_exp_minus_1)

lemma trailer_lo:
  "le_word (ucast (x :: u64)) (ucast (drop_bit 8 x)) (ucast (drop_bit 16 x)) (ucast (drop_bit 24 x))
     = ucast (x AND 0xFFFFFFFF)"
  unfolding le_word_def mask32_numeral
proof (rule bit_word_eqI)
  fix n :: nat
  assume n: "n < LENGTH(32)"
  then consider "n < 8" | "8 \<le> n \<and> n < 16" | "16 \<le> n \<and> n < 24" | "24 \<le> n \<and> n < 32"
    by fastforce
  then show "bit (push_bit 24 (ucast (ucast (drop_bit 24 x) :: u8)) OR
              push_bit 16 (ucast (ucast (drop_bit 16 x) :: u8)) OR
              push_bit 8 (ucast (ucast (drop_bit 8 x) :: u8)) OR ucast (ucast x :: u8) :: u32) n
         = bit (ucast (x AND mask 32) :: u32) n"
    by cases (auto simp add: bit_simps)
qed

lemma trailer_hi:
  "le_word (ucast (drop_bit 32 (push_bit 3 (c :: u64)))) (ucast (drop_bit 40 (push_bit 3 c)))
      (ucast (drop_bit 48 (push_bit 3 c))) (ucast (drop_bit 56 (push_bit 3 c)))
     = ucast (drop_bit 29 c AND 0xFFFFFFFF)"
  unfolding le_word_def mask32_numeral
proof (rule bit_word_eqI)
  fix n :: nat
  assume n: "n < LENGTH(32)"
  then consider "n < 8" | "8 \<le> n \<and> n < 16" | "16 \<le> n \<and> n < 24" | "24 \<le> n \<and> n < 32"
    by fastforce
  then show "bit (push_bit 24 (ucast (ucast (drop_bit 56 (push_bit 3 c)) :: u8)) OR
              push_bit 16 (ucast (ucast (drop_bit 48 (push_bit 3 c)) :: u8)) OR
              push_bit 8 (ucast (ucast (drop_bit 40 (push_bit 3 c)) :: u8)) OR
              ucast (ucast (drop_bit 32 (push_bit 3 c)) :: u8) :: u32) n
         = bit (ucast (drop_bit 29 c AND mask 32) :: u32) n"
    by cases (auto simp add: bit_simps add.commute)
qed

lemma words_of_md5_length_bytes:
  "words_of LittleEndian (md5_length_bytes cnt) =
     [ucast (push_bit 3 cnt AND 0xFFFFFFFF), ucast (drop_bit 29 cnt AND 0xFFFFFFFF)]"
  unfolding md5_length_bytes_unfold
  by (simp add: bytes_word_LE trailer_lo trailer_hi)

lemma md5_blocks_one: "length bs = 64 \<Longrightarrow> md5_blocks bs = [words_of LittleEndian bs]"
  by (simp add: md5_blocks_long md5_blocks_short)

lemma md5_blocks_two:
  "length xs = 64 \<Longrightarrow> length ys = 64 \<Longrightarrow>
   md5_blocks (xs @ ys) = [words_of LittleEndian xs, words_of LittleEndian ys]"
  by (simp add: md5_blocks_long md5_blocks_short)

lemma md5Final_pad_blocks:
  assumes wf: "wf_ctx ctx"
  shows "\<exists>st blk. md5Final_pad h ctx = Some (st, blk) \<and>
    md5Transform st blk =
      foldl md5Transform (buf ctx)
        (md5_blocks (buffered h ctx @ md5_padding (unat (bytes ctx) mod 64) (bytes ctx)))"
proof -
  let ?n = "unat (bytes ctx) mod 64"
  let ?P = "buffered h ctx"
  let ?L = "md5_length_bytes (bytes ctx)"
  from wf have lP: "length ?P = ?n"
    by (simp add: wf_ctx_def length_buffered)
  have lL: "length ?L = 8" by (simp add: md5_length_bytes_def)
  show ?thesis
  proof (cases "?n < 56")
    case True
    let ?A = "?P @ 0x80 # replicate (55 - ?n) 0"
    have lA: "length ?A = 56" using True lP by simp
    then have "words_of LittleEndian (?A @ ?L) = words_of LittleEndian ?A @ words_of LittleEndian ?L"
      by (intro words_of_append) simp
    moreover have "?P @ md5_padding ?n (bytes ctx) = ?A @ ?L"
      using True by (simp add: md5_padding_def)
    moreover have "length (?A @ ?L) = 64"
      using lA lL by simp
    ultimately have "md5_blocks (?P @ md5_padding ?n (bytes ctx)) =
        [words_of LittleEndian ?A @ words_of LittleEndian ?L]"
      by (simp only: md5_blocks_one)
    then show ?thesis
      by (simp add: md5Final_pad_low [OF wf True] words_of_md5_length_bytes)
  next
    case False
    then have high: "56 \<le> ?n" by simp
    have n64: "?n < 64" by simp
    let ?A = "?P @ 0x80 # replicate (63 - ?n) 0"
    let ?B = "replicate 56 0 @ ?L"
    have lA: "length ?A = 64" using n64 lP by simp
    have lB: "length ?B = 64" using lL by simp
    have "119 - ?n = (63 - ?n) + 56" using n64 by simp
    then have "replicate (119 - ?n) (0 :: u8) = replicate (63 - ?n) 0 @ replicate 56 0"
      by (simp only: replicate_add)
    then have "?P @ md5_padding ?n (bytes ctx) = ?A @ ?B"
      using False by (simp add: md5_padding_def)
    then have "md5_blocks (?P @ md5_padding ?n (bytes ctx)) =
        [words_of LittleEndian ?A, words_of LittleEndian ?B]"
      using md5_blocks_two [OF lA lB] by simp
    moreover have "words_of LittleEndian ?B =
        words_of LittleEndian (replicate 56 0) @ words_of LittleEndian ?L"
      by (intro words_of_append) simp
    ultimately show ?thesis
      by (simp add: md5Final_pad_high [OF wf high] words_of_md5_length_bytes)
  qed
qed

lemma md5Final_Some:
  assumes wf: "wf_ctx ctx"
  shows "md5Final h ctx =
    Some (mem_of LittleEndian
        (foldl md5Transform (buf ctx)
          (md5_blocks (buffered h ctx @ md5_padding (unat (bytes ctx) mod 64) (bytes ctx)))),
      \<lparr>buf = replicate 4 0, bytes = 0, inbuf = replicate 16 0\<rparr>)"
proof -
  obtain st blk where pad: "md5Final_pad h ctx = Some (st, blk)"
    and tr: "md5Transform st blk =
      foldl md5Transform (buf ctx)
        (md5_blocks (buffered h ctx @ md5_padding (unat (bytes ctx) mod 64) (bytes ctx)))"
    using md5Final_pad_blocks [OF wf, of h] by blast
  let ?st1 = "md5Transform st blk"
  have l4: "length ?st1 = 4"
    using wf by (simp add: tr length_foldl_md5Transform wf_ctx_def)
  obtain st' where sw: "byteSwap h ?st1 4 = Some st'" "mem_of h st' = mem_of LittleEndian ?st1"
    using byteSwap_all [of h ?st1] l4 by auto
  have "length (mem_of LittleEndian ?st1) = 16"
    by (simp add: length_mem_of l4)
  then have "take 16 (mem_of h st') = mem_of LittleEndian ?st1"
    by (simp add: sw(2))
  then have "md5Final h ctx =
      Some (mem_of LittleEndian ?st1, \<lparr>buf = replicate 4 0, bytes = 0, inbuf = replicate 16 0\<rparr>)"
    by (simp add: md5Final_def pad sw(1))
  then show ?thesis
    by (simp only: tr)
qed

section \<open>Streams of updates\<close>

lemma md5_blocks_append:
  "md5_blocks (s @ d) = md5_blocks s @ md5_blocks (md5_rest s @ d)"
proof (induction "length s" arbitrary: s rule: less_induct)
  case less
  show ?case
  proof (cases "64 \<le> length s")
    case True
    then have "length (drop 64 s) < length s" by simp
    from less [OF this] have IH: "md5_blocks (drop 64 s @ d) =
        md5_blocks (drop 64 s) @ md5_blocks (md5_rest (drop 64 s) @ d)" .
    have "64 \<le> length (s @ d)" using True by simp
    from md5_blocks_long [OF this] True
    have "md5_blocks (s @ d) = words_of LittleEndian (take 64 s) # md5_blocks (drop 64 s @ d)"
      by simp
    with IH show ?thesis
      by (simp add: md5_blocks_long [OF True] md5_rest_long [OF True])
  next
    case False
    then show ?thesis by (simp add: md5_blocks_short md5_rest_short)
  qed
qed

lemma md5_rest_append: "md5_rest (s @ d) = md5_rest (md5_rest s @ d)"
proof (induction "length s" arbitrary: s rule: less_induct)
  case less
  show ?case
  proof (cases "64 \<le> length s")
    case True
    then have "length (drop 64 s) < length s" by simp
    from less [OF this] have IH: "md5_rest (drop 64 s @ d) = md5_rest (md5_rest (drop 64 s) @ d)" .
    have "64 \<le> length (s @ d)" using True by simp
    from md5_rest_long [OF this] True
    have "md5_rest (s @ d) = md5_rest (drop 64 s @ d)"
      by simp
    with IH show ?thesis
      by (simp add: md5_rest_long [OF True])
  next
    case False
    then show ?thesis by (simp add: md5_rest_short)
  qed
qed

lemma length_md5_blocks: "length (md5_blocks s) = length s div 64"
proof (induction "length s" arbitrary: s rule: less_induct)
  case less
  show ?case
  proof (cases "64 \<le> length s")
    case True
    then have "length (drop 64 s) < length s" by simp
    from less [OF this] True show ?thesis
      by (simp add: md5_blocks_long [OF True] le_div_geq)
  next
    case False
    then show ?thesis by (simp add: md5_blocks_short)
  qed
qed

lemma md5Init_props:
  assumes "wf_ctx c0"
  shows "wf_ctx (md5Init c0)" and "buf (md5Init c0) = md5_iv" and "bytes (md5Init c0) = 0"
    and "buffered h (md5Init c0) = []"
proof -
  from assms obtain a b c d where "buf c0 = [a, b, c, d]"
    using list4 [of "buf c0"] by (auto simp add: wf_ctx_def)
  then show "buf (md5Init c0) = md5_iv"
    by (simp add: md5Init_def md5_iv_def)
  show "wf_ctx (md5Init c0)"
    using assms by (simp add: md5Init_def wf_ctx_def)
  show "bytes (md5Init c0) = 0"
    by (simp add: md5Init_def)
  show "buffered h (md5Init c0) = []"
    by (simp add: md5Init_def buffered_def)
qed

lemma md5Updates_Some:
  assumes "wf_ctx ctx"
  shows "\<exists>c'. md5Updates h ctx pieces = Some c' \<and> wf_ctx c' \<and>
    bytes c' = bytes ctx + of_nat (length (concat pieces)) \<and>
    buf c' = foldl md5Transform (buf ctx) (md5_blocks (buffered h ctx @ concat pieces)) \<and>
    buffered h c' = md5_rest (buffered h ctx @ concat pieces)"
  using assms
proof (induction pieces arbitrary: ctx)
  case Nil
  then have "length (buffered h ctx) < 64"
    by (simp add: wf_ctx_def length_buffered)
  with Nil show ?case
    by (simp add: md5_blocks_short md5_rest_short)
next
  case (Cons d ds)
  let ?P = "buffered h ctx"
  obtain c1 where c1: "md5Update h ctx d = Some c1" "wf_ctx c1"
    "bytes c1 = bytes ctx + of_nat (length d)"
    "buf c1 = foldl md5Transform (buf ctx) (md5_blocks (?P @ d))"
    "buffered h c1 = md5_rest (?P @ d)"
    using md5Update_Some [OF Cons.prems, of h d] by blast
  obtain c' where c': "md5Updates h c1 ds = Some c'" "wf_ctx c'"
    "bytes c' = bytes c1 + of_nat (length (concat ds))"
    "buf c' = foldl md5Transform (buf c1) (md5_blocks (buffered h c1 @ concat ds))"
    "buffered h c' = md5_rest (buffered h c1 @ concat ds)"
    using Cons.IH [OF c1(2)] by blast
  have "md5_blocks (?P @ concat (d # ds)) =
      md5_blocks (?P @ d) @ md5_blocks (md5_rest (?P @ d) @ concat ds)"
    using md5_blocks_append [of "?P @ d" "concat ds"] by simp
  moreover have "md5_rest (?P @ concat (d # ds)) = md5_rest (md5_rest (?P @ d) @ concat ds)"
    using md5_rest_append [of "?P @ d" "concat ds"] by simp
  ultimately show ?case
    using c1 c' by (simp add: algebra_simps)
qed

lemma unat_of_nat_mod64: "unat (of_nat k :: u64) mod 64 = k mod 64"
proof -
  have "unat (of_nat k :: u64) mod 64 = k mod 2 ^ 64 mod 64"
    by (simp add: unat_of_nat)
  also have "\<dots> = k mod 64"
    by (rule mod_mod_cancel) simp
  finally show ?thesis .
qed

lemma md5Final_after_stream:
  assumes "wf_ctx ctx" and "bytes ctx = of_nat (length s)"
    and "buf ctx = foldl md5Transform md5_iv (md5_blocks s)"
    and "buffered h ctx = md5_rest s"
  shows "md5Final h ctx =
    Some (md5_digest s, \<lparr>buf = replicate 4 0, bytes = 0, inbuf = replicate 16 0\<rparr>)"
proof -
  let ?pad = "md5_padding (length s mod 64) (of_nat (length s))"
  have "md5_blocks (s @ ?pad) = md5_blocks s @ md5_blocks (md5_rest s @ ?pad)"
    by (rule md5_blocks_append)
  then show ?thesis
    using assms by (simp add: md5Final_Some md5_digest_def unat_of_nat_mod64)
qed

lemma md5_stream_digest:
  assumes "wf_ctx c0"
  shows "md5_stream h c0 pieces = Some (md5_digest (concat pieces))"
proof -
  note i = md5Init_props [OF assms]
  obtain c' where c': "md5Updates h (md5Init c0) pieces = Some c'" "wf_ctx c'"
    "bytes c' = bytes (md5Init c0) + of_nat (length (concat pieces))"
    "buf c' = foldl md5Transform (buf (md5Init c0))
       (md5_blocks (buffered h (md5Init c0) @ concat pieces))"
    "buffered h c' = md5_rest (buffered h (md5Init c0) @ concat pieces)"
    using md5Updates_Some [OF i(1), of h pieces] by blast
  have "md5Final h c' = Some (md5_digest (concat pieces),
      \<lparr>buf = replicate 4 0, bytes = 0, inbuf = replicate 16 0\<rparr>)"
    using c' by (intro md5Final_after_stream) (simp_all add: i)
  then show ?thesis
    by (simp add: md5_stream_def c'(1))
qed

lemma md5_digest_eq:
  assumes "wf_ctx c0"
  shows "md5 h c0 data = Some (md5_digest data)"
proof -
  note i = md5Init_props [OF assms]
  obtain c' where c': "md5Update h (md5Init c0) data = Some c'" "wf_ctx c'"
    "bytes c' = bytes (md5Init c0) + of_nat (length data)"
    "buf c' = foldl md5Transform (buf (md5Init c0))
       (md5_blocks (buffered h (md5Init c0) @ data))"
    "buffered h c' = md5_rest (buffered h (md5Init c0) @ data)"
    using md5Update_Some [OF i(1), of h data] by blast
  have "md5Final h c' = Some (md5_digest data,
      \<lparr>buf = replicate 4 0, bytes = 0, inbuf = replicate 16 0\<rparr>)"
    using c' by (intro md5Final_after_stream) (simp_all add: i)
  then show ?thesis
    by (simp add: md5_def c'(1))
qed

section \<open>The compression step and its table\<close>

lemma md5_table_eq:
  "md5_table =
    [(0, 0, 0xd76aa478, 7),
     (0, 1, 0xe8c7b756, 12),
     (0, 2, 0x242070db, 17),
     (0, 3, 0xc1bdceee, 22),
     (0, 4, 0xf57c0faf, 7),
     (0, 5, 0x4787c62a, 12),
     (0, 6, 0xa8304613, 17),
     (0, 7, 0xfd469501, 22),
     (0, 8, 0x698098d8, 7),
     (0, 9, 0x8b44f7af, 12),
     (0, 10, 0xffff5bb1, 17),
     (0, 11, 0x895cd7be, 22),
     (0, 12, 0x6b901122, 7),
     (0, 13, 0xfd987193, 12),
     (0, 14, 0xa679438e, 17),
     (0, 15, 0x49b40821, 22),
     (1, 1, 0xf61e2562, 5),
     (1, 6, 0xc040b340, 9),
     (1, 11, 0x265e5a51, 14),
     (1, 0, 0xe9b6c7aa, 20),
     (1, 5, 0xd62f105d, 5),
     (1, 10, 0x02441453, 9),
     (1, 15, 0xd8a1e681, 14),
     (1, 4, 0xe7d3fbc8, 20),
     (1, 9, 0x21e1cde6, 5),
     (1, 14, 0xc33707d6, 9),
     (1, 3, 0xf4d50d87, 14),
     (1, 8, 0x455a14ed, 20),
     (1, 13, 0xa9e3e905, 5),
     (1, 2, 0xfcefa3f8, 9),
     (1, 7, 0x676f02d9, 14),
     (1, 12, 0x8d2a4c8a, 20),
     (2, 5, 0xfffa3942, 4),
     (2, 8, 0x8771f681, 11),
     (2, 11, 0x6d9d6122, 16),
     (2, 14, 0xfde5380c, 23),
     (2, 1, 0xa4beea44, 4),
     (2, 4, 0x4bdecfa9, 11),
     (2, 7, 0xf6bb4b60, 16),
     (2, 10, 0xbebfbc70, 23),
     (2, 13, 0x289b7ec6, 4),
     (2, 0, 0xeaa127fa, 11),
     (2, 3, 0xd4ef3085, 16),
     (2, 6, 0x04881d05, 23),
     (2, 9, 0xd9d4d039, 4),
     (2, 12, 0xe6db99e5, 11),
     (2, 15, 0x1fa27cf8, 16),
     (2, 2, 0xc4ac5665, 23),
     (3, 0, 0xf4292244, 6),
     (3, 7, 0x432aff97, 10),
     (3, 14, 0xab9423a7, 15),
     (3, 5, 0xfc93a039, 21),
     (3, 12, 0x655b59c3, 6),
     (3, 3, 0x8f0ccc92, 10),
     (3, 10, 0xffeff47d, 15),
     (3, 1, 0x85845dd1, 21),
     (3, 8, 0x6fa87e4f, 6),
     (3, 15, 0xfe2ce6e0, 10),
     (3, 6, 0xa3014314, 15),
     (3, 13, 0x4e0811a1, 21),
     (3, 4, 0xf7537e82, 6),
     (3, 11, 0xbd3af235, 10),
     (3, 2, 0x2ad7d2bb, 15),
     (3, 9, 0xeb86d391, 21)]"
  unfolding md5_table_def by code_simp

lemma rotl_eq:
  assumes "0 < s" and "s < 32"
  shows "push_bit s w OR drop_bit (32 - s) w = word_rotl s (w :: u32)"
proof (rule bit_word_eqI)
  fix n :: nat
  assume n: "n < LENGTH(32)"
  show "bit (push_bit s w OR drop_bit (32 - s) w) n = bit (word_rotl s w) n"
  proof (cases "n < s")
    case True
    then have "(n + (32 - s)) mod 32 = 32 - s + n"
      using assms by simp
    with True n assms show ?thesis
      by (simp add: bit_simps)
  next
    case False
    then have "(n + (32 - s)) mod 32 = n - s"
      using assms n by (simp add: mod_if)
    moreover have "\<not> bit w (32 - s + n)"
      using False assms by (auto dest: bit_imp_le_length)
    ultimately show ?thesis
      using False n assms by (simp add: bit_simps)
  qed
qed


lemma MD5STEP_rotl:
  "0 < s \<Longrightarrow> s < 32 \<Longrightarrow> MD5STEP f w x y z inp s = x + word_rotl s (w + f x y z + inp)"
  by (simp add: MD5STEP_def Let_def rotl_eq ac_simps)

lemma md5_F_simps:
  "md5_F 0 = F1" "md5_F 1 = F2" "md5_F 2 = F3" "md5_F 3 = F4"
  by (simp_all add: fun_eq_iff md5_F_def F1_def F2_def F3_def F4_def)

lemma md5_round_step:
  assumes "0 < s" and "s < 32"
  shows "md5_round blk (g, i, k, s) (a, b, c, d) =
    (d, MD5STEP (md5_F g) a b c d (blk ! i + k) s, b, c)"
  by (simp add: md5_round_def MD5STEP_rotl [OF assms] ac_simps)

lemma rounds_Cons:
  assumes "0 < s" and "s < 32"
  shows "(case foldl (\<lambda>regs r. md5_round blk r regs) (a, b, c, d) ((g, i, k, s) # rs) of
            (a, b, c, d) \<Rightarrow> K a b c d) =
         (let w = MD5STEP (md5_F g) a b c d (blk ! i + k) s
          in case foldl (\<lambda>regs r. md5_round blk r regs) (d, w, b, c) rs of
            (a, b, c, d) \<Rightarrow> K a b c d)"
  by (simp add: md5_round_step [OF assms] Let_def)

lemma rounds_Nil:
  "(case foldl (\<lambda>regs r. md5_round blk r regs) (a, b, c, d) [] of (a, b, c, d) \<Rightarrow> K a b c d)
     = K a b c d"
  by simp

lemma nth4:
  "[s0, s1, s2, s3] ! 0 = s0" "[s0, s1, s2, s3] ! 1 = s1"
  "[s0, s1, s2, s3] ! 2 = s2" "[s0, s1, s2, s3] ! 3 = s3"
  by simp_all

lemma final4:
  "(let st = [s0, s1, s2, s3][0 := s0 + a]; st = st[1 := st ! 1 + b];
        st = st[2 := st ! 2 + c]; st = st[3 := st ! 3 + d]
    in st) = [s0 + a, s1 + b, s2 + c, s3 + d]"
  by (simp add: Let_def)

lemma md5Transform_schedule4:
  "md5Transform [s0, s1, s2, s3] blk = md5_schedule [s0, s1, s2, s3] blk"
  unfolding md5Transform_def md5_schedule_def md5_table_eq
  by (simp only: nth4 Let_def [of s0] Let_def [of s1] Let_def [of s2] Let_def [of s3] final4
      rounds_Cons rounds_Nil zero_less_numeral numeral_less_iff Num.less_num_simps md5_F_simps)

lemma md5_index_groups:
  "md5_index =
     map (\<lambda>i. i) [0..<16] @ map (\<lambda>i. (5 * i + 1) mod 16) [0..<16] @
     map (\<lambda>i. (3 * i + 5) mod 16) [0..<16] @ map (\<lambda>i. 7 * i mod 16) [0..<16]"
  unfolding md5_index_def by code_simp

lemma md5_index_permutations:
  "map (\<lambda>g. sort (take 16 (drop (16 * g) md5_index))) [0, 1, 2, 3] =
     [[0..<16], [0..<16], [0..<16], [0..<16]]"
  unfolding md5_index_def by code_simp

section \<open>The properties\<close>

lemma kat_empty: "md5_digest [] =
  [0xd4, 0x1d, 0x8c, 0xd9, 0x8f, 0x00, 0xb2, 0x04, 0xe9, 0x80, 0x09, 0x98, 0xec, 0xf8, 0x42, 0x7e]"
  by code_simp

lemma kat_abc: "md5_digest (ascii ''abc'') =
  [0x90, 0x01, 0x50, 0x98, 0x3c, 0xd2, 0x4f, 0xb0, 0xd6, 0x96, 0x3f, 0x7d, 0x28, 0xe1, 0x7f, 0x72]"
  by code_simp

lemma kat_fox: "md5_digest (ascii ''The quick brown fox jumps over the lazy dog'') =
  [0x9e, 0x10, 0x7d, 0x9d, 0x37, 0x2b, 0xb6, 0x82, 0x6b, 0xd8, 0x1d, 0x35, 0x42, 0xa4, 0x19, 0xd6]"
  by code_simp

lemma wf_ctx_cleared: "wf_ctx md5_cleared"
  by (simp add: wf_ctx_def md5_cleared_def)

lemma length_md5_digest: "length (md5_digest s) = 16"
  by (simp add: md5_digest_def length_mem_of length_foldl_md5Transform md5_iv_def)

text \<open>Claim C1. On either host and whatever the local context held before
  \<open>md5Init\<close>, the one-shot \<open>md5\<close> returns the known MD5 values: for the empty
  input the bytes d41d8cd98f00b204e9800998ecf8427e, for the 3 bytes of "abc"
  900150983cd24fb0d6963f7d28e17f72, and for the 43 bytes of "The quick brown fox
  jumps over the lazy dog" 9e107d9d372bb6826bd81d3542a419d6.\<close>

theorem md5_known_answers:
  assumes "wf_ctx context"
  shows "md5 h context [] =
      Some [0xd4, 0x1d, 0x8c, 0xd9, 0x8f, 0x00, 0xb2, 0x04,
            0xe9, 0x80, 0x09, 0x98, 0xec, 0xf8, 0x42, 0x7e] \<and>
    md5 h context (ascii ''abc'') =
      Some [0x90, 0x01, 0x50, 0x98, 0x3c, 0xd2, 0x4f, 0xb0,
            0xd6, 0x96, 0x3f, 0x7d, 0x28, 0xe1, 0x7f, 0x72] \<and>
    length (ascii ''abc'') = 3 \<and>
    md5 h context (ascii ''The quick brown fox jumps over the lazy dog'') =
      Some [0x9e, 0x10, 0x7d, 0x9d, 0x37, 0x2b, 0xb6, 0x82,
            0x6b, 0xd8, 0x1d, 0x35, 0x42, 0xa4, 0x19, 0xd6] \<and>
    length (ascii ''The quick brown fox jumps over the lazy dog'') = 43"
  by (simp only: md5_digest_eq [OF assms] kat_empty kat_abc kat_fox) (simp add: ascii_def)

theorem md5_known_answers_witness:
  "wf_ctx md5_cleared \<and>
   md5 BigEndian md5_cleared [] =
      Some [0xd4, 0x1d, 0x8c, 0xd9, 0x8f, 0x00, 0xb2, 0x04,
            0xe9, 0x80, 0x09, 0x98, 0xec, 0xf8, 0x42, 0x7e]"
  using md5_known_answers [OF wf_ctx_cleared, of BigEndian] wf_ctx_cleared by simp

text \<open>Claim C2. Chunk invariance: \<open>md5Init\<close>, one \<open>md5Update\<close> per piece of any
  partition of a byte sequence, then \<open>md5Final\<close> gives the digest that the one-shot
  \<open>md5\<close> gives for the whole sequence, and that digest exists and has 16 bytes.
  From any context, \<open>md5Update\<close> with \<open>a\<close> then with \<open>b\<close> is followed by the same
  result of \<open>md5Final\<close> as one \<open>md5Update\<close> with \<open>a @ b\<close>; pieces may be empty or
  single bytes.\<close>

theorem md5_chunk_invariance:
  assumes "wf_ctx c0" and "wf_ctx c1" and "wf_ctx ctx"
  shows "md5_stream h c0 pieces = md5 h c1 (concat pieces) \<and>
    (\<exists>d. md5 h c1 (concat pieces) = Some d \<and> length d = 16) \<and>
    Option.bind (md5Updates h ctx [a, b]) (md5Final h) =
      Option.bind (md5Update h ctx (a @ b)) (md5Final h)"
proof -
  obtain c' where c': "md5Updates h ctx [a, b] = Some c'" "wf_ctx c'"
    "bytes c' = bytes ctx + of_nat (length (concat [a, b]))"
    "buf c' = foldl md5Transform (buf ctx) (md5_blocks (buffered h ctx @ concat [a, b]))"
    "buffered h c' = md5_rest (buffered h ctx @ concat [a, b])"
    using md5Updates_Some [OF assms(3), of h "[a, b]"] by blast
  obtain c'' where c'': "md5Update h ctx (a @ b) = Some c''" "wf_ctx c''"
    "bytes c'' = bytes ctx + of_nat (length (a @ b))"
    "buf c'' = foldl md5Transform (buf ctx) (md5_blocks (buffered h ctx @ a @ b))"
    "buffered h c'' = md5_rest (buffered h ctx @ a @ b)"
    using md5Update_Some [OF assms(3), of h "a @ b"] by blast
  have "md5Final h c' = md5Final h c''"
    using c' c'' by (simp add: md5Final_Some)
  then have "Option.bind (md5Updates h ctx [a, b]) (md5Final h) =
      Option.bind (md5Update h ctx (a @ b)) (md5Final h)"
    by (simp only: c'(1) c''(1) Option.bind.simps)
  then show ?thesis
    by (simp add: md5_stream_digest [OF assms(1)] md5_digest_eq [OF assms(2)] length_md5_digest)
qed

theorem md5_chunk_invariance_witness:
  "wf_ctx md5_cleared \<and>
   md5_stream LittleEndian md5_cleared [[0x61], [], [0x62, 0x63]] =
     md5 LittleEndian md5_cleared (concat [[0x61], [], [0x62, 0x63]]) \<and>
   Option.bind (md5Updates LittleEndian md5_cleared [[0x61], [0x62, 0x63]])
       (md5Final LittleEndian) =
     Option.bind (md5Update LittleEndian md5_cleared ([0x61] @ [0x62, 0x63]))
       (md5Final LittleEndian)"
  using md5_chunk_invariance [OF wf_ctx_cleared wf_ctx_cleared wf_ctx_cleared,
      of LittleEndian "[[0x61], [], [0x62, 0x63]]" "[0x61]" "[0x62, 0x63]"]
    wf_ctx_cleared
  by blast

text \<open>Claim C3. On the 4 state words and a 16-word block, \<open>md5Transform\<close> computes the
  schedule of the spec: 64 rounds in 4 groups of 16 with the functions
  \<open>F1 = d XOR (b AND (c XOR d))\<close>, \<open>F2 = c XOR (d AND (b XOR c))\<close>, \<open>F3 = b XOR c XOR d\<close>,
  \<open>F4 = c XOR (b OR NOT d)\<close>; each round is
  \<open>a' = b + rotate_left (a + F b c d + word[index] + constant) rotation\<close> with the table of
  indices and constants and the rotations 7,12,17,22 / 5,9,14,20 / 4,11,16,23 / 6,10,15,21,
  the registers \<open>(a,b,c,d)\<close> becoming \<open>(d,a',b,c)\<close>; the four registers are then added
  (modulo \<open>2 ^ 32\<close>) to the four state words.\<close>

theorem md5Transform_computes_schedule:
  assumes "length st = 4"
  shows "md5Transform st blk = md5_schedule st blk \<and> length md5_table = 64 \<and>
    md5_F 0 = F1 \<and> md5_F 1 = F2 \<and> md5_F 2 = F3 \<and> md5_F 3 = F4"
proof -
  from assms obtain s0 s1 s2 s3 where "st = [s0, s1, s2, s3]"
    using list4 [of st] by blast
  then have "md5Transform st blk = md5_schedule st blk"
    by (simp only: md5Transform_schedule4)
  moreover have "length md5_table = 64"
    by (simp add: md5_table_def)
  ultimately show ?thesis
    using md5_F_simps by simp
qed

theorem md5Transform_computes_schedule_witness:
  "length md5_iv = 4 \<and>
   md5Transform md5_iv (replicate 16 0) = md5_schedule md5_iv (replicate 16 0)"
  using md5Transform_computes_schedule [of md5_iv "replicate 16 0"]
  by (simp add: md5_iv_def)

text \<open>Claim C4. The padding of \<open>md5Final\<close>, with \<open>n = bytes mod 64\<close> bytes buffered:
  the byte \<open>0x80\<close> follows the buffered bytes. If \<open>n < 56\<close>, \<open>55 - n\<close> zero bytes
  bring the block to offset 56. If \<open>n \<ge> 56\<close>, \<open>63 - n\<close> zero bytes fill the block,
  \<open>md5Transform\<close> is run on it, and a fresh block gets 56 zero bytes. The 8 bytes of
  the bit count then occupy offsets 56 to 63, and \<open>md5Transform\<close> is run a last time on
  that block; its result is the digest.\<close>

theorem md5Final_padding:
  assumes "wf_ctx ctx"
  shows "\<exists>st blk. md5Final_pad h ctx = Some (st, blk) \<and>
    length (buffered h ctx) = unat (bytes ctx) mod 64 \<and>
    (st, blk) =
      (if unat (bytes ctx) mod 64 < 56
       then (buf ctx,
             words_of LittleEndian
               (buffered h ctx @ 0x80 # replicate (55 - unat (bytes ctx) mod 64) 0 @
                md5_length_bytes (bytes ctx)))
       else (md5Transform (buf ctx)
               (words_of LittleEndian
                 (buffered h ctx @ 0x80 # replicate (63 - unat (bytes ctx) mod 64) 0)),
             words_of LittleEndian (replicate 56 0 @ md5_length_bytes (bytes ctx)))) \<and>
    md5Final h ctx = Some (mem_of LittleEndian (md5Transform st blk), md5_cleared)"
proof -
  let ?n = "unat (bytes ctx) mod 64"
  let ?P = "buffered h ctx"
  let ?L = "md5_length_bytes (bytes ctx)"
  from assms have lP: "length ?P = ?n"
    by (simp add: wf_ctx_def length_buffered)
  obtain st blk where pad: "md5Final_pad h ctx = Some (st, blk)"
    and tr: "md5Transform st blk =
      foldl md5Transform (buf ctx) (md5_blocks (?P @ md5_padding ?n (bytes ctx)))"
    using md5Final_pad_blocks [OF assms, of h] by blast
  have fin: "md5Final h ctx = Some (mem_of LittleEndian (md5Transform st blk), md5_cleared)"
    by (simp only: md5Final_Some [OF assms] tr md5_cleared_def)
  show ?thesis
  proof (cases "?n < 56")
    case True
    let ?A = "?P @ 0x80 # replicate (55 - ?n) 0"
    have "length ?A = 56" using True lP by simp
    then have "words_of LittleEndian (?A @ ?L) =
        words_of LittleEndian ?A @ words_of LittleEndian ?L"
      by (intro words_of_append) simp
    with pad fin lP True show ?thesis
      by (simp add: md5Final_pad_low [OF assms True] words_of_md5_length_bytes)
  next
    case False
    then have high: "56 \<le> ?n" by simp
    have "words_of LittleEndian (replicate 56 0 @ ?L) =
        words_of LittleEndian (replicate 56 0) @ words_of LittleEndian ?L"
      by (intro words_of_append) simp
    with pad fin lP False show ?thesis
      by (simp add: md5Final_pad_high [OF assms high] words_of_md5_length_bytes)
  qed
qed

theorem md5Final_padding_witness:
  "wf_ctx (md5_cleared\<lparr>bytes := 60\<rparr>) \<and>
   (\<exists>st blk. md5Final_pad BigEndian (md5_cleared\<lparr>bytes := 60\<rparr>) = Some (st, blk) \<and>
      md5Final BigEndian (md5_cleared\<lparr>bytes := 60\<rparr>) =
        Some (mem_of LittleEndian (md5Transform st blk), md5_cleared))"
proof -
  have wf: "wf_ctx (md5_cleared\<lparr>bytes := 60\<rparr>)"
    by (simp add: wf_ctx_def md5_cleared_def)
  from md5Final_padding [OF wf, of BigEndian] wf show ?thesis
    by blast
qed

text \<open>Claim C7. \<open>md5Final\<close> returns its 16 digest bytes and leaves every field of the
  context zero: the 4 state words, the byte counter and the 16 buffer words, that is
  all 64 bytes of the block buffer.\<close>

theorem md5Final_clears_context:
  assumes "wf_ctx ctx"
  shows "\<exists>digest. md5Final h ctx =
      Some (digest, \<lparr>buf = [0, 0, 0, 0], bytes = 0, inbuf = replicate 16 0\<rparr>) \<and>
    length digest = 16 \<and> mem_of h (replicate 16 0) = replicate 64 0"
proof -
  have "word_bytes h 0 = [0, 0, 0, 0]"
    by (cases h) (simp_all add: word_bytes_def le_bytes_def)
  then have "mem_of h (replicate 16 0) = replicate 64 0"
    by (simp add: mem_of_def eval_nat_numeral)
  moreover have "replicate 4 (0 :: u32) = [0, 0, 0, 0]"
    by (simp add: eval_nat_numeral)
  moreover have "length (foldl md5Transform (buf ctx) blks) = 4" for blks
    using assms by (simp add: length_foldl_md5Transform wf_ctx_def)
  ultimately show ?thesis
    by (simp add: md5Final_Some [OF assms] length_mem_of)
qed

theorem md5Final_clears_context_witness:
  "wf_ctx (md5Init md5_cleared) \<and>
   (\<exists>digest. md5Final LittleEndian (md5Init md5_cleared) =
      Some (digest, \<lparr>buf = [0, 0, 0, 0], bytes = 0, inbuf = replicate 16 0\<rparr>))"
proof -
  have wf: "wf_ctx (md5Init md5_cleared)"
    by (rule md5Init_props) (rule wf_ctx_cleared)
  from md5Final_clears_context [OF wf, of LittleEndian] wf show ?thesis
    by blast
qed

text \<open>Claim C9. The writes of \<open>md5Final\<close> stay inside the 64-byte block buffer. The
  model returns \<open>None\<close> as soon as a write leaves the array; for every context of the
  right shape the marker offset \<open>bytes mod 64\<close> is below 64, the write of the marker
  succeeds, and so do the padding and the whole of \<open>md5Final\<close>.\<close>

theorem md5Final_in_bounds:
  assumes "wf_ctx ctx"
  shows "unat (bytes ctx AND 0x3f) < 64 \<and>
    (\<exists>in1. poke h (inbuf ctx) (unat (bytes ctx AND 0x3f)) 0x80 = Some in1) \<and>
    (\<exists>st blk. md5Final_pad h ctx = Some (st, blk)) \<and>
    (\<exists>digest ctx'. md5Final h ctx = Some (digest, ctx'))"
proof -
  have "unat (bytes ctx AND 0x3f) < 64"
    by (simp add: unat_and_3f)
  moreover from this assms
  have "\<exists>in1. poke h (inbuf ctx) (unat (bytes ctx AND 0x3f)) 0x80 = Some in1"
    by (simp add: poke_def wf_ctx_def)
  moreover have "\<exists>st blk. md5Final_pad h ctx = Some (st, blk)"
    using md5Final_pad_blocks [OF assms, of h] by blast
  ultimately show ?thesis
    by (simp add: md5Final_Some [OF assms])
qed

theorem md5Final_in_bounds_witness:
  "wf_ctx (md5_cleared\<lparr>bytes := 63\<rparr>) \<and>
   (\<exists>digest ctx'. md5Final BigEndian (md5_cleared\<lparr>bytes := 63\<rparr>) = Some (digest, ctx'))"
proof -
  have wf: "wf_ctx (md5_cleared\<lparr>bytes := 63\<rparr>)"
    by (simp add: wf_ctx_def md5_cleared_def)
  from md5Final_in_bounds [OF wf, of BigEndian] wf show ?thesis
    by blast
qed

lemma md5Update_Nil:
  assumes "wf_ctx ctx"
  shows "md5Update h ctx [] = Some ctx"
proof -
  let ?n = "unat (bytes ctx) mod 64"
  have "?n \<le> 64" by simp
  with assms have "memcpy_to h (inbuf ctx) ?n [] = Some (inbuf ctx)"
    by (simp add: memcpy_to_def wf_ctx_def words_of_mem_of)
  moreover have "0 < 64 - ?n" by simp
  ultimately show ?thesis
    by (simp add: md5Update_def Let_def unat_t)
qed

lemma md5Update_transforms_blocks:
  assumes "wf_ctx ctx"
  shows "md5Update_transforms ctx data = length (md5_blocks (buffered h ctx @ data))"
proof -
  let ?n = "unat (bytes ctx) mod 64"
  from assms have "length (buffered h ctx) = ?n"
    by (simp add: wf_ctx_def length_buffered)
  then have "length (md5_blocks (buffered h ctx @ data)) = (?n + length data) div 64"
    by (simp add: length_md5_blocks)
  moreover have "md5Update_transforms ctx data = (?n + length data) div 64"
  proof (cases "64 - ?n > length data")
    case True
    then show ?thesis
      by (simp add: md5Update_transforms_def Let_def unat_t)
  next
    case False
    then have "?n + length data = 64 + (length data - (64 - ?n))"
      by simp
    then have "(?n + length data) div 64 = 1 + (length data - (64 - ?n)) div 64"
      by simp
    with False show ?thesis
      by (simp add: md5Update_transforms_def Let_def unat_t)
  qed
  ultimately show ?thesis by simp
qed

text \<open>Claim C10. \<open>md5Update\<close> with no bytes is the identity on every context of the
  right shape: the state words, the buffer and the counter are unchanged, and
  \<open>md5Transform\<close> is not called.\<close>

theorem md5Update_empty:
  assumes "wf_ctx ctx"
  shows "md5Update h ctx [] = Some ctx \<and> md5Update_transforms ctx [] = 0"
proof -
  have "0 < 64 - unat (bytes ctx) mod 64" by simp
  then have "md5Update_transforms ctx [] = 0"
    by (simp add: md5Update_transforms_def Let_def unat_t)
  with md5Update_Nil [OF assms, of h] show ?thesis
    by simp
qed

theorem md5Update_empty_witness:
  "wf_ctx (md5_cleared\<lparr>bytes := 70\<rparr>) \<and>
   md5Update LittleEndian (md5_cleared\<lparr>bytes := 70\<rparr>) [] = Some (md5_cleared\<lparr>bytes := 70\<rparr>)"
proof -
  have wf: "wf_ctx (md5_cleared\<lparr>bytes := 70\<rparr>)"
    by (simp add: wf_ctx_def md5_cleared_def)
  from md5Update_empty [OF wf, of LittleEndian] wf show ?thesis
    by blast
qed

lemma md5Final_pad_trailer:
  assumes "wf_ctx ctx"
  shows "\<exists>st blk. md5Final_pad h ctx = Some (st, blk) \<and> length blk = 16 \<and>
    drop 14 blk = [ucast (push_bit 3 (bytes ctx) AND 0xFFFFFFFF),
                   ucast (drop_bit 29 (bytes ctx) AND 0xFFFFFFFF)]"
proof -
  let ?n = "unat (bytes ctx) mod 64"
  from assms have lP: "length (buffered h ctx) = ?n"
    by (simp add: wf_ctx_def length_buffered)
  show ?thesis
  proof (cases "?n < 56")
    case True
    have "length (words_of LittleEndian
        (buffered h ctx @ 0x80 # replicate (55 - ?n) 0)) = 14"
      using True lP by (simp add: length_words_of)
    then show ?thesis
      by (simp add: md5Final_pad_low [OF assms True])
  next
    case False
    then have high: "56 \<le> ?n" by simp
    have "length (words_of LittleEndian (replicate 56 (0 :: u8))) = 14"
      by (simp add: length_words_of)
    then show ?thesis
      by (simp add: md5Final_pad_high [OF assms high])
  qed
qed

lemma unat_trailer_lo:
  "unat (ucast (push_bit 3 (of_nat N :: u64) AND 0xFFFFFFFF) :: u32) = N * 8 mod 2 ^ 64 mod 2 ^ 32"
proof -
  have "unat (ucast (push_bit 3 (of_nat N :: u64) AND mask 32) :: u32) =
      take_bit 32 (push_bit 3 N)"
    by (simp add: unsigned_ucast_eq take_bit_eq_mask [symmetric] unsigned_take_bit_eq
        unsigned_push_bit_eq unsigned_of_nat take_bit_push_bit)
  also have "\<dots> = take_bit 32 (take_bit 64 (push_bit 3 N))"
    by simp
  also have "\<dots> = N * 8 mod 2 ^ 64 mod 2 ^ 32"
    by (simp only: take_bit_eq_mod push_bit_eq_mult) simp
  finally show ?thesis
    by (simp only: mask32_numeral)
qed

lemma unat_trailer_hi:
  "unat (ucast (drop_bit 29 (of_nat N :: u64) AND 0xFFFFFFFF) :: u32) = N * 8 mod 2 ^ 64 div 2 ^ 32"
proof -
  have "unat (ucast (drop_bit 29 (of_nat N :: u64) AND mask 32) :: u32) =
      take_bit 32 (drop_bit 29 (take_bit 64 N))"
    by (simp add: unsigned_ucast_eq take_bit_eq_mask [symmetric] unsigned_take_bit_eq
        unsigned_drop_bit_eq unsigned_of_nat)
  also have "\<dots> = drop_bit 29 (take_bit 61 N)"
    by (simp add: take_bit_drop_bit)
  also have "\<dots> = drop_bit 32 (take_bit 64 (push_bit 3 N))"
    by (simp add: take_bit_push_bit drop_bit_push_bit)
  also have "\<dots> = N * 8 mod 2 ^ 64 div 2 ^ 32"
    by (simp add: take_bit_eq_mod push_bit_eq_mult drop_bit_eq_div)
  finally show ?thesis
    by (simp only: mask32_numeral)
qed

lemma mod61_bits:
  assumes "N mod 2 ^ 61 = N' mod 2 ^ 61"
  shows "(N :: nat) * 8 mod 2 ^ 64 = N' * 8 mod 2 ^ 64"
proof -
  have "N * 8 mod 2 ^ 64 = (N mod 2 ^ 61) * 8" for N :: nat
    using mult_mod_left [of N "2 ^ 61" 8] by simp
  with assms show ?thesis by simp
qed


text \<open>Claim C5. The two length words of the last block hold the bit count
  \<open>8 * N\<close> reduced modulo \<open>2 ^ 64\<close>, for \<open>N\<close> bytes absorbed: word 14 (offset 56) its
  low 32 bits, word 15 (offset 60) its high 32 bits, which is the little-endian
  reading of the 8 bytes of the bit count. Higher bits are dropped: two byte counts
  congruent modulo \<open>2 ^ 61\<close> give the same two words.\<close>

theorem md5Final_length_trailer:
  assumes "wf_ctx ctx" and "wf_ctx ctx'"
    and "bytes ctx = of_nat N" and "bytes ctx' = of_nat N'"
    and "N mod 2 ^ 61 = N' mod 2 ^ 61"
  shows "\<exists>st blk st' blk'.
    md5Final_pad h ctx = Some (st, blk) \<and> md5Final_pad h ctx' = Some (st', blk') \<and>
    length blk = 16 \<and>
    unat (blk ! 14) = N * 8 mod 2 ^ 64 mod 2 ^ 32 \<and>
    unat (blk ! 15) = N * 8 mod 2 ^ 64 div 2 ^ 32 \<and>
    drop 14 blk = words_of LittleEndian (md5_length_bytes (of_nat N)) \<and>
    drop 14 blk' = drop 14 blk"
proof -
  let ?lo = "\<lambda>c :: u64. (ucast (push_bit 3 c AND 0xFFFFFFFF) :: u32)"
  let ?hi = "\<lambda>c :: u64. (ucast (drop_bit 29 c AND 0xFFFFFFFF) :: u32)"
  obtain st blk where b: "md5Final_pad h ctx = Some (st, blk)" "length blk = 16"
    "drop 14 blk = [?lo (of_nat N), ?hi (of_nat N)]"
    using md5Final_pad_trailer [OF assms(1), of h] by (auto simp add: assms(3))
  obtain st' blk' where b': "md5Final_pad h ctx' = Some (st', blk')"
    "drop 14 blk' = [?lo (of_nat N'), ?hi (of_nat N')]"
    using md5Final_pad_trailer [OF assms(2), of h] by (auto simp add: assms(4))
  have bits: "N * 8 mod 2 ^ 64 = N' * 8 mod 2 ^ 64"
    by (rule mod61_bits) (rule assms(5))
  have "unat (?lo (of_nat N)) = unat (?lo (of_nat N'))"
    by (simp only: unat_trailer_lo bits)
  then have lo: "?lo (of_nat N) = ?lo (of_nat N')"
    by (simp only: word_unat_eq_iff)
  have "unat (?hi (of_nat N)) = unat (?hi (of_nat N'))"
    by (simp only: unat_trailer_hi bits)
  then have hi: "?hi (of_nat N) = ?hi (of_nat N')"
    by (simp only: word_unat_eq_iff)
  have "blk ! 14 = drop 14 blk ! 0" and "blk ! 15 = drop 14 blk ! 1"
    using b(2) by simp_all
  then have "blk ! 14 = ?lo (of_nat N)" and "blk ! 15 = ?hi (of_nat N)"
    by (simp_all add: b(3))
  then have "unat (blk ! 14) = N * 8 mod 2 ^ 64 mod 2 ^ 32"
    and "unat (blk ! 15) = N * 8 mod 2 ^ 64 div 2 ^ 32"
    by (simp_all only: unat_trailer_lo unat_trailer_hi)
  moreover have "drop 14 blk' = drop 14 blk"
    by (simp only: b(3) b'(2) lo hi)
  moreover have "drop 14 blk = words_of LittleEndian (md5_length_bytes (of_nat N))"
    by (simp only: b(3) words_of_md5_length_bytes)
  ultimately show ?thesis
    using b(1,2) b'(1) by blast
qed

theorem md5Final_length_trailer_witness:
  "wf_ctx (md5_cleared\<lparr>bytes := of_nat 5\<rparr>) \<and>
   wf_ctx (md5_cleared\<lparr>bytes := of_nat (5 + 2 ^ 61)\<rparr>) \<and>
   (5 :: nat) mod 2 ^ 61 = (5 + 2 ^ 61) mod 2 ^ 61 \<and>
   (\<exists>st blk st' blk'.
     md5Final_pad LittleEndian (md5_cleared\<lparr>bytes := of_nat 5\<rparr>) = Some (st, blk) \<and>
     md5Final_pad LittleEndian (md5_cleared\<lparr>bytes := of_nat (5 + 2 ^ 61)\<rparr>) = Some (st', blk') \<and>
     unat (blk ! 14) = 5 * 8 mod 2 ^ 64 mod 2 ^ 32 \<and>
     drop 14 blk' = drop 14 blk)"
proof -
  have wf: "wf_ctx (md5_cleared\<lparr>bytes := of_nat 5\<rparr>)"
    by (simp add: wf_ctx_def md5_cleared_def)
  have wf': "wf_ctx (md5_cleared\<lparr>bytes := of_nat (5 + 2 ^ 61)\<rparr>)"
    by (simp add: wf_ctx_def md5_cleared_def)
  have m: "(5 :: nat) mod 2 ^ 61 = (5 + 2 ^ 61) mod 2 ^ 61"
    by simp
  have b: "bytes (md5_cleared\<lparr>bytes := of_nat 5\<rparr>) = of_nat 5"
    and b': "bytes (md5_cleared\<lparr>bytes := of_nat (5 + 2 ^ 61)\<rparr>) = of_nat (5 + 2 ^ 61)"
    by simp_all
  from md5Final_length_trailer [OF wf wf' b b' m, of LittleEndian] wf wf' m show ?thesis
    by blast
qed

lemma md5Init_cleared_final:
  "md5Final h (md5Init md5_cleared) = Some (md5_digest [], md5_cleared)"
proof -
  note i = md5Init_props [OF wf_ctx_cleared]
  have "md5Final h (md5Init md5_cleared) =
      Some (md5_digest [], \<lparr>buf = replicate 4 0, bytes = 0, inbuf = replicate 16 0\<rparr>)"
    by (rule md5Final_after_stream) (simp_all add: i md5_blocks_short md5_rest_short)
  then show ?thesis
    by (simp only: md5_cleared_def)
qed

lemma cleared_fields:
  "buf md5_cleared = [0, 0, 0, 0]" "bytes md5_cleared = 0" "buffered h md5_cleared = []"
  by (simp_all add: md5_cleared_def buffered_def eval_nat_numeral)

lemma padding_empty_length: "length (md5_padding 0 0) = 64"
  by (simp add: md5_padding_def md5_length_bytes_def)

lemma md5Final_cleared:
  "md5Final h md5_cleared =
    Some (mem_of LittleEndian
        (md5Transform [0, 0, 0, 0] (words_of LittleEndian (md5_padding 0 0))),
      md5_cleared)"
proof -
  have "md5Final h md5_cleared =
      Some (mem_of LittleEndian
          (foldl md5Transform (buf md5_cleared)
            (md5_blocks (buffered h md5_cleared @
               md5_padding (unat (bytes md5_cleared) mod 64) (bytes md5_cleared)))),
        md5_cleared)"
    by (simp only: md5Final_Some [OF wf_ctx_cleared] md5_cleared_def [symmetric])
  then show ?thesis
    by (simp only: cleared_fields append_Nil unsigned_0 mod_0
        md5_blocks_one [OF padding_empty_length] foldl.simps)
qed

lemma wrong_digest:
  "mem_of LittleEndian (md5Transform [0, 0, 0, 0] (words_of LittleEndian (md5_padding 0 0))) =
    [0xb0, 0xe6, 0x41, 0xc9, 0x98, 0xcc, 0x3e, 0xae, 0x6f, 0xa2, 0xf8, 0x72, 0x6d, 0x98, 0xcd, 0xdd]"
  by code_simp

text \<open>Claim C6 fails on the code: no operation checks whether the context was
  initialised or already finalised. A first \<open>md5Final\<close> after \<open>md5Init\<close> returns the
  digest of the empty stream and leaves the cleared context; a second \<open>md5Final\<close> on
  that context returns normally too, with other bytes, and so does a further
  \<open>md5Update\<close>.\<close>

theorem md5Final_twice_counterexample:
  "md5Final LittleEndian (md5Init md5_cleared) =
     Some ([0xd4, 0x1d, 0x8c, 0xd9, 0x8f, 0x00, 0xb2, 0x04,
            0xe9, 0x80, 0x09, 0x98, 0xec, 0xf8, 0x42, 0x7e], md5_cleared) \<and>
   md5Final LittleEndian md5_cleared =
     Some ([0xb0, 0xe6, 0x41, 0xc9, 0x98, 0xcc, 0x3e, 0xae,
            0x6f, 0xa2, 0xf8, 0x72, 0x6d, 0x98, 0xcd, 0xdd], md5_cleared) \<and>
   md5Update LittleEndian md5_cleared [] = Some md5_cleared"
  by (simp only: md5Init_cleared_final md5Final_cleared kat_empty wrong_digest
      md5Update_Nil [OF wf_ctx_cleared] simp_thms)

text \<open>Claim C6 as amended: \<open>md5Update\<close> and \<open>md5Final\<close> signal no error and check no
  lifecycle. On every context of the right shape, whatever its fields hold, both
  return normally; \<open>md5Final\<close> returns 16 bytes and the cleared context. On a cleared
  context a further \<open>md5Final\<close> returns the bytes obtained by compressing the padding
  block of the empty stream into the all-zero state, and a further \<open>md5Update\<close>
  absorbs its data into the all-zero state with the byte count restarting at 0.\<close>

theorem md5_lifecycle_unchecked:
  assumes "wf_ctx ctx"
  shows "(\<exists>ctx'. md5Update h ctx data = Some ctx' \<and> wf_ctx ctx') \<and>
    (\<exists>digest. md5Final h ctx = Some (digest, md5_cleared) \<and> length digest = 16) \<and>
    md5Final h md5_cleared =
      Some (mem_of LittleEndian
          (md5Transform [0, 0, 0, 0] (words_of LittleEndian (md5_padding 0 0))),
        md5_cleared) \<and>
    (\<exists>ctx'. md5Update h md5_cleared data = Some ctx' \<and>
       buf ctx' = foldl md5Transform [0, 0, 0, 0] (md5_blocks data) \<and>
       bytes ctx' = of_nat (length data))"
proof -
  have A: "\<exists>ctx'. md5Update h ctx data = Some ctx' \<and> wf_ctx ctx'"
    using md5Update_Some [OF assms, of h data] by blast
  let ?d = "mem_of LittleEndian
      (foldl md5Transform (buf ctx)
        (md5_blocks (buffered h ctx @ md5_padding (unat (bytes ctx) mod 64) (bytes ctx))))"
  have "length ?d = 16"
    using assms by (simp add: length_mem_of length_foldl_md5Transform wf_ctx_def)
  moreover have "md5Final h ctx = Some (?d, md5_cleared)"
    by (simp only: md5Final_Some [OF assms] md5_cleared_def)
  ultimately have B: "\<exists>digest. md5Final h ctx = Some (digest, md5_cleared) \<and> length digest = 16"
    by blast
  obtain c2 where c2: "md5Update h md5_cleared data = Some c2"
    "bytes c2 = bytes md5_cleared + of_nat (length data)"
    "buf c2 = foldl md5Transform (buf md5_cleared) (md5_blocks (buffered h md5_cleared @ data))"
    using md5Update_Some [OF wf_ctx_cleared, of h data] by blast
  have "buf c2 = foldl md5Transform [0, 0, 0, 0] (md5_blocks data)"
    using c2(3) by (simp only: cleared_fields append_Nil)
  moreover have "bytes c2 = of_nat (length data)"
    using c2(2) by (simp only: cleared_fields add_0_left)
  ultimately have D: "\<exists>ctx'. md5Update h md5_cleared data = Some ctx' \<and>
       buf ctx' = foldl md5Transform [0, 0, 0, 0] (md5_blocks data) \<and>
       bytes ctx' = of_nat (length data)"
    using c2(1) by blast
  show ?thesis
    by (rule conjI [OF A conjI [OF B conjI [OF md5Final_cleared D]]])
qed

theorem md5_lifecycle_unchecked_witness:
  "wf_ctx stale_a \<and>
   (\<exists>ctx'. md5Update BigEndian stale_a [0x61] = Some ctx' \<and> wf_ctx ctx') \<and>
   (\<exists>digest. md5Final BigEndian stale_a = Some (digest, md5_cleared) \<and> length digest = 16)"
proof -
  have wf: "wf_ctx stale_a"
    by (simp add: wf_ctx_def stale_a_def)
  from md5_lifecycle_unchecked [OF wf, of BigEndian "[0x61]"] wf show ?thesis
    by blast
qed

lemma length_concat_replicate: "length (concat (replicate n xs)) = n * length xs"
  by (induction n) simp_all

lemma length_long_stream: "length (concat long_stream) = 2 ^ 64"
proof -
  have "length (concat long_stream) = (2 :: nat) ^ 32 * 2 ^ 32"
    by (simp only: long_stream_def length_concat_replicate length_replicate)
  also have "\<dots> = 2 ^ 64"
    by (simp only: power_add [symmetric]) simp
  finally show ?thesis .
qed

lemma concat_md5_blocks:
  "concat (md5_blocks s) = words_of LittleEndian (take (64 * (length s div 64)) s)"
proof (induction "length s" arbitrary: s rule: less_induct)
  case less
  show ?case
  proof (cases "64 \<le> length s")
    case True
    let ?k = "64 * (length (drop 64 s) div 64)"
    have "length (drop 64 s) < length s" using True by simp
    from less [OF this]
    have IH: "concat (md5_blocks (drop 64 s)) = words_of LittleEndian (take ?k (drop 64 s))" .
    have "64 * (length s div 64) = 64 + ?k"
      using True by (simp add: le_div_geq)
    then have "take (64 * (length s div 64)) s = take 64 s @ take ?k (drop 64 s)"
      by (simp only: take_add)
    moreover have "words_of LittleEndian (take 64 s @ take ?k (drop 64 s)) =
        words_of LittleEndian (take 64 s) @ words_of LittleEndian (take ?k (drop 64 s))"
      using True by (intro words_of_append) simp
    ultimately show ?thesis
      using IH by (simp add: md5_blocks_long [OF True])
  next
    case False
    then show ?thesis by (simp add: md5_blocks_short)
  qed
qed

lemma stale_agree:
  assumes "wf_ctx c1" and "wf_ctx c2" and "buf c1 = buf c2" and "bytes c1 = bytes c2"
    and "buffered h c1 = buffered h c2"
  shows "md5Final h c1 = md5Final h c2"
    and "\<exists>c1' c2'. md5Update h c1 data = Some c1' \<and> md5Update h c2 data = Some c2' \<and>
      buf c1' = buf c2' \<and> bytes c1' = bytes c2' \<and> buffered h c1' = buffered h c2'"
proof -
  show "md5Final h c1 = md5Final h c2"
    by (simp only: md5Final_Some [OF assms(1)] md5Final_Some [OF assms(2)] assms(3,4,5))
  obtain c1' where c1: "md5Update h c1 data = Some c1'"
    "bytes c1' = bytes c1 + of_nat (length data)"
    "buf c1' = foldl md5Transform (buf c1) (md5_blocks (buffered h c1 @ data))"
    "buffered h c1' = md5_rest (buffered h c1 @ data)"
    using md5Update_Some [OF assms(1), of h data] by blast
  obtain c2' where c2: "md5Update h c2 data = Some c2'"
    "bytes c2' = bytes c2 + of_nat (length data)"
    "buf c2' = foldl md5Transform (buf c2) (md5_blocks (buffered h c2 @ data))"
    "buffered h c2' = md5_rest (buffered h c2 @ data)"
    using md5Update_Some [OF assms(2), of h data] by blast
  have "buf c1' = buf c2'" "bytes c1' = bytes c2'" "buffered h c1' = buffered h c2'"
    by (simp_all only: c1 c2 assms(3,4,5))
  with c1(1) c2(1) show "\<exists>c1' c2'. md5Update h c1 data = Some c1' \<and>
      md5Update h c2 data = Some c2' \<and>
      buf c1' = buf c2' \<and> bytes c1' = bytes c2' \<and> buffered h c1' = buffered h c2'"
    by blast
qed

lemma md5Updates_init:
  assumes "wf_ctx c0"
  shows "\<exists>ctx. md5Updates h (md5Init c0) pieces = Some ctx \<and> wf_ctx ctx \<and>
    bytes ctx = of_nat (length (concat pieces)) \<and>
    buf ctx = foldl md5Transform md5_iv (md5_blocks (concat pieces)) \<and>
    buffered h ctx = md5_rest (concat pieces)"
proof -
  note i = md5Init_props [OF assms]
  obtain c' where c': "md5Updates h (md5Init c0) pieces = Some c'" "wf_ctx c'"
    "bytes c' = bytes (md5Init c0) + of_nat (length (concat pieces))"
    "buf c' = foldl md5Transform (buf (md5Init c0))
       (md5_blocks (buffered h (md5Init c0) @ concat pieces))"
    "buffered h c' = md5_rest (buffered h (md5Init c0) @ concat pieces)"
    using md5Updates_Some [OF i(1), of h pieces] by blast
  have "bytes c' = of_nat (length (concat pieces))"
    using c'(3) by (simp only: i add_0_left)
  moreover have "buf c' = foldl md5Transform md5_iv (md5_blocks (concat pieces))"
    using c'(4) by (simp only: i append_Nil)
  moreover have "buffered h c' = md5_rest (concat pieces)"
    using c'(5) by (simp only: i append_Nil)
  ultimately show ?thesis
    using c'(1,2) by blast
qed

text \<open>Claim C8 fails on the code where it says that the counter equals the length of
  the stream: the counter has 64 bits. After \<open>md5Init\<close> and \<open>2 ^ 32\<close> calls of
  \<open>md5Update\<close> with \<open>2 ^ 32\<close> bytes each, the stream has \<open>2 ^ 64\<close> bytes and the
  counter is 0.\<close>

theorem md5_counter_wraps_counterexample:
  "length (concat long_stream) = 2 ^ 64 \<and>
   map_option bytes (md5Updates LittleEndian (md5Init md5_cleared) long_stream) = Some 0 \<and>
   unat (0 :: u64) \<noteq> length (concat long_stream)"
proof -
  obtain ctx where ctx: "md5Updates LittleEndian (md5Init md5_cleared) long_stream = Some ctx"
    "bytes ctx = of_nat (length (concat long_stream))"
    using md5Updates_init [OF wf_ctx_cleared, of LittleEndian long_stream] by blast
  have "(of_nat (2 ^ 64) :: u64) = 0"
    by simp
  then have "bytes ctx = 0"
    by (simp only: ctx(2) length_long_stream)
  then have "map_option bytes (md5Updates LittleEndian (md5Init md5_cleared) long_stream) = Some 0"
    by (simp only: ctx(1) option.map)
  moreover have "unat (0 :: u64) \<noteq> length (concat long_stream)"
    by (simp only: length_long_stream) simp
  ultimately show ?thesis
    using length_long_stream by blast
qed


text \<open>Claim C8 as amended. After \<open>md5Init\<close> and any sequence of \<open>md5Update\<close> calls
  that absorb the stream \<open>S\<close>: the counter equals the length of \<open>S\<close> modulo
  \<open>2 ^ 64\<close>; \<open>bytes mod 64\<close> is \<open>|S| mod 64\<close>, below 64; the state words are the
  initial constants folded through \<open>md5Transform\<close> over the first \<open>|S| div 64\<close>
  consecutive 64-byte blocks of \<open>S\<close>; the first \<open>bytes mod 64\<close> bytes of the buffer
  are the bytes of \<open>S\<close> after those blocks. The buffer bytes beyond that offset are
  never read: two contexts that agree on the state words, the counter and the
  buffered bytes give the same result of \<open>md5Final\<close>, and after the same \<open>md5Update\<close>
  they agree again.\<close>

theorem md5_buffering_invariant:
  assumes "wf_ctx c0" and "wf_ctx c1" and "wf_ctx c2"
    and "buf c1 = buf c2" and "bytes c1 = bytes c2" and "buffered h c1 = buffered h c2"
  shows "(\<exists>ctx. md5Updates h (md5Init c0) pieces = Some ctx \<and> wf_ctx ctx \<and>
      unat (bytes ctx) = length (concat pieces) mod 2 ^ 64 \<and>
      unat (bytes ctx AND 0x3f) = length (concat pieces) mod 64 \<and>
      unat (bytes ctx AND 0x3f) < 64 \<and>
      buf ctx = foldl md5Transform md5_iv (md5_blocks (concat pieces)) \<and>
      length (md5_blocks (concat pieces)) = length (concat pieces) div 64 \<and>
      concat (md5_blocks (concat pieces)) =
        words_of LittleEndian
          (take (64 * (length (concat pieces) div 64)) (concat pieces)) \<and>
      buffered h ctx = drop (64 * (length (concat pieces) div 64)) (concat pieces) \<and>
      length (buffered h ctx) = length (concat pieces) mod 64) \<and>
    md5Final h c1 = md5Final h c2 \<and>
    (\<exists>c1' c2'. md5Update h c1 data = Some c1' \<and> md5Update h c2 data = Some c2' \<and>
      buf c1' = buf c2' \<and> bytes c1' = bytes c2' \<and> buffered h c1' = buffered h c2')"
proof -
  let ?S = "concat pieces"
  obtain ctx where ctx: "md5Updates h (md5Init c0) pieces = Some ctx" "wf_ctx ctx"
    "bytes ctx = of_nat (length ?S)"
    "buf ctx = foldl md5Transform md5_iv (md5_blocks ?S)"
    "buffered h ctx = md5_rest ?S"
    using md5Updates_init [OF assms(1), of h pieces] by blast
  have n: "unat (bytes ctx) = length ?S mod 2 ^ 64"
    by (simp add: ctx(3) unat_of_nat)
  have m: "unat (bytes ctx AND 0x3f) = length ?S mod 64"
    by (simp only: unat_and_3f ctx(3) unat_of_nat_mod64)
  then have lt: "unat (bytes ctx AND 0x3f) < 64"
    by simp
  have "\<exists>ctx. md5Updates h (md5Init c0) pieces = Some ctx \<and> wf_ctx ctx \<and>
      unat (bytes ctx) = length ?S mod 2 ^ 64 \<and>
      unat (bytes ctx AND 0x3f) = length ?S mod 64 \<and>
      unat (bytes ctx AND 0x3f) < 64 \<and>
      buf ctx = foldl md5Transform md5_iv (md5_blocks ?S) \<and>
      length (md5_blocks ?S) = length ?S div 64 \<and>
      concat (md5_blocks ?S) =
        words_of LittleEndian (take (64 * (length ?S div 64)) ?S) \<and>
      buffered h ctx = drop (64 * (length ?S div 64)) ?S \<and>
      length (buffered h ctx) = length ?S mod 64"
    using ctx(1,2,4) n m lt length_md5_blocks [of ?S] concat_md5_blocks [of ?S]
      ctx(5) [unfolded md5_rest_def] length_md5_rest [of ?S, folded ctx(5)]
    by blast
  with stale_agree(1) [OF assms(2-6)] stale_agree(2) [OF assms(2-6), of data] show ?thesis
    by blast
qed

theorem md5_buffering_invariant_witness:
  "wf_ctx md5_cleared \<and> wf_ctx stale_a \<and> wf_ctx stale_b \<and>
   buf stale_a = buf stale_b \<and> bytes stale_a = bytes stale_b \<and>
   buffered LittleEndian stale_a = buffered LittleEndian stale_b \<and>
   inbuf stale_a \<noteq> inbuf stale_b \<and>
   (\<exists>ctx. md5Updates LittleEndian (md5Init md5_cleared) [[1], [], [2, 3]] = Some ctx \<and>
      unat (bytes ctx) = length (concat [[1], [], [2, 3 :: u8]]) mod 2 ^ 64 \<and>
      buffered LittleEndian ctx =
        drop (64 * (length (concat [[1], [], [2, 3 :: u8]]) div 64)) (concat [[1], [], [2, 3]])) \<and>
   md5Final LittleEndian stale_a = md5Final LittleEndian stale_b"
proof -
  have wa: "wf_ctx stale_a" and wb: "wf_ctx stale_b"
    by (simp_all add: wf_ctx_def stale_a_def stale_b_def)
  have e1: "buf stale_a = buf stale_b" and e2: "bytes stale_a = bytes stale_b"
    by (simp_all add: stale_a_def stale_b_def)
  have e3: "buffered LittleEndian stale_a = buffered LittleEndian stale_b"
    by code_simp
  have ne: "inbuf stale_a \<noteq> inbuf stale_b"
    by (simp add: stale_a_def stale_b_def)
  from md5_buffering_invariant [OF wf_ctx_cleared wa wb e1 e2 e3, of "[[1], [], [2, 3]]" "[]"]
    wf_ctx_cleared wa wb e1 e2 e3 ne
  show ?thesis
    by blast
qed

end
